theory Spec2Isabelle
  imports Main
begin

section \<open>JavaScript values, objects and strings\<close>

text \<open>
  The values that flow through the hooks: content items arrive as plain JavaScript
  objects, mirror rows come back from D1 as objects whose properties are the table's
  columns. Numbers are modelled as integers (ids, dates, counters and limits are
  integers in this code base); strings are lists of 8-bit code units. Decimal
  fractions, exponents and \<open>Infinity\<close> are outside the model.
\<close>

datatype jsval = JUndefined | JNull | JNum int | JStr string

text \<open>
  An object is its list of own properties in insertion order
  (\<open>Object.entries\<close> order for string keys).
\<close>

type_synonym obj = "(string \<times> jsval) list"

definition getp :: "obj \<Rightarrow> string \<Rightarrow> jsval" where
  "getp ob k = (case map_of ob k of None \<Rightarrow> JUndefined | Some v \<Rightarrow> v)"

text \<open>
  \<open>ob[k] = v\<close>: an existing property keeps its place, a new one is appended. A
  JavaScript \<open>Map\<close> is modelled the same way, as the list of its entries in insertion
  order, with \<open>map_of\<close> for \<open>get\<close> and \<open>setp\<close> for \<open>set\<close>.
\<close>

fun setp :: "('k \<times> 'v) list \<Rightarrow> 'k \<Rightarrow> 'v \<Rightarrow> ('k \<times> 'v) list" where
  "setp [] k v = [(k, v)]"
| "setp ((k', v') # ob) k v =
     (if k' = k then (k, v) # ob else (k', v') # setp ob k v)"

fun truthy :: "jsval \<Rightarrow> bool" where
  "truthy JUndefined = False"
| "truthy JNull = False"
| "truthy (JNum n) = (n \<noteq> 0)"
| "truthy (JStr s) = (s \<noteq> [])"

text \<open>\<open>a || b\<close>\<close>

definition js_or :: "jsval \<Rightarrow> jsval \<Rightarrow> jsval" where
  "js_or a b = (if truthy a then a else b)"

subsection \<open>Character classes\<close>

definition is_space :: "char \<Rightarrow> bool" where
  "is_space c = (c \<in> set [CHR '' '', CHR 0x09, CHR 0x0A, CHR 0x0B, CHR 0x0C, CHR 0x0D, CHR 0xA0])"

definition is_digit :: "char \<Rightarrow> bool" where
  "is_digit c = (c \<in> set ''0123456789'')"

definition upper_letters :: string where
  "upper_letters = ''ABCDEFGHIJKLMNOPQRSTUVWXYZ''"

definition lower_letters :: string where
  "lower_letters = ''abcdefghijklmnopqrstuvwxyz''"

text \<open>\<open>\w\<close>\<close>

definition is_word :: "char \<Rightarrow> bool" where
  "is_word c = (c \<in> set upper_letters \<or> c \<in> set lower_letters \<or> is_digit c \<or> c = CHR ''_'')"

definition is_quote :: "char \<Rightarrow> bool" where
  "is_quote c = (c = CHR 0x27 \<or> c = CHR 0x22)"

definition lower_char :: "char \<Rightarrow> char" where
  "lower_char c = (case map_of (zip upper_letters lower_letters) c of None \<Rightarrow> c | Some d \<Rightarrow> d)"

definition upper_char :: "char \<Rightarrow> char" where
  "upper_char c = (case map_of (zip lower_letters upper_letters) c of None \<Rightarrow> c | Some d \<Rightarrow> d)"

definition toLowerCase :: "string \<Rightarrow> string" where
  "toLowerCase s = map lower_char s"

definition toUpperCase :: "string \<Rightarrow> string" where
  "toUpperCase s = map upper_char s"

definition trim :: "string \<Rightarrow> string" where
  "trim s = rev (dropWhile is_space (rev (dropWhile is_space s)))"

definition startsWith :: "string \<Rightarrow> string \<Rightarrow> bool" where
  "startsWith s p = (take (length p) s = p)"

definition endsWith :: "string \<Rightarrow> string \<Rightarrow> bool" where
  "endsWith s p = (length p \<le> length s \<and> drop (length s - length p) s = p)"

fun str_includes :: "string \<Rightarrow> string \<Rightarrow> bool" where
  "str_includes [] p = (p = [])"
| "str_includes (c # s) p = (startsWith (c # s) p \<or> str_includes s p)"

subsection \<open>Numbers and strings\<close>

definition digit_val :: "char \<Rightarrow> nat" where
  "digit_val c = (of_char c :: nat) - 48"

definition digits_val :: "string \<Rightarrow> nat" where
  "digits_val s = foldl (\<lambda>acc c. 10 * acc + digit_val c) 0 s"

definition hex_letters :: "(char \<times> nat) list" where
  "hex_letters = zip ''0123456789abcdefABCDEF''
     [0, 1, 2, 3, 4, 5, 6, 7, 8, 9, 10, 11, 12, 13, 14, 15, 10, 11, 12, 13, 14, 15]"

definition is_hex :: "char \<Rightarrow> bool" where
  "is_hex c = (map_of hex_letters c \<noteq> None)"

definition hex_val :: "string \<Rightarrow> nat" where
  "hex_val s = foldl (\<lambda>acc c. 16 * acc + (case map_of hex_letters c of None \<Rightarrow> 0 | Some d \<Rightarrow> d)) 0 s"

text \<open>
  \<open>Number(s)\<close> on a string; \<open>isNaN(v)\<close> is \<open>Number(v)\<close> being \<open>NaN\<close>. The value of a
  numeric string is kept as a decimal \<open>m \<cdot> 10\<^sup>e\<close>, or as one of the infinities;
  \<open>None\<close> stands for \<open>NaN\<close>. The string is trimmed; the empty string is 0; \<open>0x\<close>,
  \<open>0o\<close> and \<open>0b\<close> start an unsigned integer in that radix; otherwise an optional sign
  is followed by \<open>Infinity\<close> or by digits with an optional fraction and an optional
  exponent. The value is exact: the rounding of \<open>Number\<close> to a double is not modelled.
\<close>

datatype jsnum = Dec int int | PInf | NInf

fun num_le :: "jsnum \<Rightarrow> jsnum \<Rightarrow> bool" where
  "num_le NInf b = True"
| "num_le a PInf = True"
| "num_le (Dec m1 e1) (Dec m2 e2) =
     (m1 * 10 ^ nat (e1 - min e1 e2) \<le> m2 * 10 ^ nat (e2 - min e1 e2))"
| "num_le a b = False"

definition num_eq :: "jsnum \<Rightarrow> jsnum \<Rightarrow> bool" where
  "num_eq a b = (num_le a b \<and> num_le b a)"

definition num_lt :: "jsnum \<Rightarrow> jsnum \<Rightarrow> bool" where
  "num_lt a b = (\<not> num_le b a)"

definition radix_val :: "nat \<Rightarrow> string \<Rightarrow> nat" where
  "radix_val base s = foldl (\<lambda>acc c. base * acc + digit_val c) 0 s"

definition radix_literal :: "string \<Rightarrow> int option" where
  "radix_literal t =
     (let p = toLowerCase (take 2 t); d = drop 2 t in
      if p = ''0x'' \<and> d \<noteq> [] \<and> list_all is_hex d then Some (int (hex_val d))
      else if p = ''0o'' \<and> d \<noteq> [] \<and> list_all (\<lambda>c. c \<in> set ''01234567'') d
      then Some (int (radix_val 8 d))
      else if p = ''0b'' \<and> d \<noteq> [] \<and> list_all (\<lambda>c. c \<in> set ''01'') d
      then Some (int (radix_val 2 d))
      else None)"

text \<open>The exponent after \<open>e\<close>: an optional sign and digits.\<close>

definition signed_digits :: "string \<Rightarrow> int option" where
  "signed_digits s =
     (case s of
        [] \<Rightarrow> None
      | c # r \<Rightarrow>
          if c = CHR ''-'' then
            (if r \<noteq> [] \<and> list_all is_digit r then Some (- int (digits_val r)) else None)
          else if c = CHR ''+'' then
            (if r \<noteq> [] \<and> list_all is_digit r then Some (int (digits_val r)) else None)
          else if list_all is_digit s then Some (int (digits_val s))
          else None)"

text \<open>
  Digits, an optional point with digits, an optional exponent; there is a digit before
  or after the point. The result is the mantissa and the exponent of ten.
\<close>

definition unsigned_decimal :: "string \<Rightarrow> (int \<times> int) option" where
  "unsigned_decimal u =
     (let ip = takeWhile is_digit u;
          r1 = dropWhile is_digit u;
          dot = (r1 \<noteq> [] \<and> hd r1 = CHR ''.'');
          fp = (if dot then takeWhile is_digit (tl r1) else []);
          r2 = (if dot then dropWhile is_digit (tl r1) else r1)
      in if ip = [] \<and> fp = [] then None
         else
           (case (if r2 = [] then Some 0
                  else if hd r2 = CHR ''e'' \<or> hd r2 = CHR ''E'' then signed_digits (tl r2)
                  else None) of
              None \<Rightarrow> None
            | Some ex \<Rightarrow> Some (int (digits_val (ip @ fp)), ex - int (length fp))))"

definition js_number :: "string \<Rightarrow> jsnum option" where
  "js_number s =
     (let t = trim s in
      if t = [] then Some (Dec 0 0)
      else
        (case radix_literal t of
           Some n \<Rightarrow> Some (Dec n 0)
         | None \<Rightarrow>
             (let neg = (hd t = CHR ''-'');
                  u = (if hd t = CHR ''-'' \<or> hd t = CHR ''+'' then tl t else t)
              in if u = ''Infinity'' then Some (if neg then NInf else PInf)
                 else
                   (case unsigned_decimal u of
                      None \<Rightarrow> None
                    | Some (m, e) \<Rightarrow> Some (Dec (if neg then - m else m) e)))))"

fun to_num :: "jsval \<Rightarrow> jsnum option" where
  "to_num JUndefined = None"
| "to_num JNull = Some (Dec 0 0)"
| "to_num (JNum n) = Some (Dec n 0)"
| "to_num (JStr s) = js_number s"

text \<open>
  \<open>parseInt(v)\<close> with no radix: leading white space, an optional sign, then either a
  \<open>0x\<close> prefix with hexadecimal digits or the longest run of decimal digits.
\<close>

definition parse_int_digits :: "string \<Rightarrow> nat option" where
  "parse_int_digits s =
     (if startsWith (toLowerCase (take 2 s)) ''0x'' then
        (let h = takeWhile is_hex (drop 2 s) in if h = [] then None else Some (hex_val h))
      else
        (let d = takeWhile is_digit s in if d = [] then None else Some (digits_val d)))"

definition parse_int_string :: "string \<Rightarrow> int option" where
  "parse_int_string s =
     (case dropWhile is_space s of
        [] \<Rightarrow> None
      | c # r \<Rightarrow>
          if c = CHR ''-'' then map_option (\<lambda>n. - int n) (parse_int_digits r)
          else if c = CHR ''+'' then map_option int (parse_int_digits r)
          else map_option int (parse_int_digits (c # r)))"

fun parseInt :: "jsval \<Rightarrow> int option" where
  "parseInt (JNum n) = Some n"
| "parseInt (JStr s) = parse_int_string s"
| "parseInt JUndefined = None"
| "parseInt JNull = None"

fun string_of_nat :: "nat \<Rightarrow> string" where
  "string_of_nat n =
     (if n < 10 then [''0123456789'' ! n]
      else string_of_nat (n div 10) @ [''0123456789'' ! (n mod 10)])"

definition string_of_int :: "int \<Rightarrow> string" where
  "string_of_int i = (if i < 0 then CHR ''-'' # string_of_nat (nat (- i)) else string_of_nat (nat i))"

declare string_of_nat.simps [simp del]

text \<open>\<open>String(v)\<close>\<close>

fun js_to_string :: "jsval \<Rightarrow> string" where
  "js_to_string JUndefined = ''undefined''"
| "js_to_string JNull = ''null''"
| "js_to_string (JNum n) = string_of_int n"
| "js_to_string (JStr s) = s"

text \<open>Strings compare by code units, left to right.\<close>

fun str_lt :: "string \<Rightarrow> string \<Rightarrow> bool" where
  "str_lt [] [] = False"
| "str_lt [] (y # ys) = True"
| "str_lt (x # xs) [] = False"
| "str_lt (x # xs) (y # ys) =
     (if (of_char x :: nat) < of_char y then True
      else if (of_char x :: nat) = of_char y then str_lt xs ys
      else False)"

section \<open>Layouts, environment and module state\<close>

text \<open>
  One entry of \<open>sys-system-layouts.json\<close>. A field that is absent from the JSON object
  is \<open>None\<close>. \<open>layout_limit\<close> is a number; an absent limit is 0, which takes the same
  branch as 0 at every use (\<open>layout_limit > 0\<close>, \<open>layout_limit || 0\<close>,
  \<open>layout_limit ? \<dots> : \<dots>\<close>).
\<close>

record layout =
  active :: "string option"
  layout_name :: "string option"
  layout_display_name :: "string option"
  layout_body :: "string option"
  layout_order :: "string option"
  layout_limit :: int
  layout_file :: "string option"
  layout_css :: "string option"
  layout_js :: "string option"
  where_clause :: "string option"

text \<open>
  What \<open>env.R2.get("sys-system-layouts.json")\<close> and the parse that follows can do:
  the call throws, it returns \<open>null\<close>, the body does not parse, or it is an array of
  layouts.
\<close>

datatype layout_source = GetThrows | NotFound | BadJson | Doc "layout list"

text \<open>The D1 statements of the two modules, by call site.\<close>

datatype site =
    TableProbe | TableCreate | BatchCount | SingleCount string
  | InsertRow | SelectExisting | UpdateRow | DeleteRow | SelectActive

datatype error =
    LayoutsNotFound | R2Error | JsonError | D1Error | TypeError
  | InvalidOrderField string

text \<open>
  The bindings a hook receives and how the external stores answer during one call:
  \<open>D1\<close> tells whether \<open>env.D1\<close> is bound, \<open>d1_fails\<close> which statements throw,
  \<open>r2_put_fails\<close> whether the synchronous \<open>R2.put\<close> throws, \<open>now\<close> is \<open>Date.now()\<close>.
\<close>

record env =
  D1 :: bool
  R2_layouts :: layout_source
  d1_fails :: "site \<Rightarrow> bool"
  r2_put_fails :: bool
  now :: int

record layout_data =
  allActiveLayouts :: "layout list"
  activeArticleGroups :: "layout list"
  layoutConfigMap :: "(string \<times> layout) list"

text \<open>
  The item cache of the layout processor. \<open>byHighlight\<close> holds references to the
  objects of \<open>all\<close>; a reference is the object's index in \<open>all\<close>, so a property written
  through one list is seen through the other.
\<close>

record articles_cache =
  all_articles :: "obj list"
  byHighlight :: "(string \<times> nat list) list"

text \<open>
  The mirror table (\<open>None\<close>: the table does not exist), the module-level caches of
  ArticleHooks.js (\<open>hk_\<close>) and of Article_layout_process.js (\<open>lp_\<close>), and the artifact
  sink: objects put synchronously, and the writes handed to \<open>asyncR2Write\<close>.
\<close>

record world =
  articles_groups :: "obj list option"
  hk_layoutConfigCache :: "layout_data option"
  hk_layoutCacheExpiry :: int
  tableExistsCache :: bool
  tableCacheExpiry :: int
  lp_layoutConfigCache :: "layout list option"
  lp_layoutCacheExpiry :: int
  articlesCache :: "articles_cache option"
  articlesCacheExpiry :: int
  r2_objects :: "(string \<times> string \<times> string) list"
  r2_queued :: "(string \<times> string \<times> string) list"

definition LAYOUT_CACHE_TTL :: int where "LAYOUT_CACHE_TTL = 300000"
definition TABLE_CACHE_TTL :: int where "TABLE_CACHE_TTL = 600000"
definition ARTICLES_CACHE_TTL :: int where "ARTICLES_CACHE_TTL = 60000"

text \<open>\<open>layout.active && layout.active.toLowerCase() === 'yes'\<close>\<close>

definition is_active :: "layout \<Rightarrow> bool" where
  "is_active l = (case active l of None \<Rightarrow> False | Some a \<Rightarrow> a \<noteq> [] \<and> toLowerCase a = ''yes'')"

text \<open>A statement throws when the store makes it fail or when the table is missing.\<close>

definition d1_rows :: "env \<Rightarrow> site \<Rightarrow> world \<Rightarrow> obj list option" where
  "d1_rows e s w = (if d1_fails e s then None else articles_groups w)"

definition d1_run :: "env \<Rightarrow> site \<Rightarrow> (obj list \<Rightarrow> obj list) \<Rightarrow> world \<Rightarrow> (error + unit) \<times> world" where
  "d1_run e s f w =
     (case d1_rows e s w of
        None \<Rightarrow> (Inl D1Error, w)
      | Some rows \<Rightarrow> (Inr (), w\<lparr>articles_groups := Some (f rows)\<rparr>))"

text \<open>SQL comparison with a bound value: \<open>NULL\<close> compares as neither equal nor different.\<close>

definition sql_eq :: "jsval \<Rightarrow> jsval \<Rightarrow> bool" where
  "sql_eq a b = (a = b \<and> a \<noteq> JNull \<and> a \<noteq> JUndefined)"

definition sql_ne :: "jsval \<Rightarrow> jsval \<Rightarrow> bool" where
  "sql_ne a b = (a \<noteq> b \<and> a \<noteq> JNull \<and> a \<noteq> JUndefined \<and> b \<noteq> JNull \<and> b \<noteq> JUndefined)"

section \<open>ArticleHooks.js\<close>

subsection \<open>getCachedLayoutConfig\<close>

definition name_index :: "layout list \<Rightarrow> (string \<times> layout) list" where
  "name_index ls =
     foldl (\<lambda>m l. case layout_name l of None \<Rightarrow> m | Some n \<Rightarrow> setp m n l) [] ls"

definition empty_layout_data :: layout_data where
  "empty_layout_data =
     \<lparr>allActiveLayouts = [], activeArticleGroups = [], layoutConfigMap = []\<rparr>"

definition build_layout_data :: "layout list \<Rightarrow> layout_data" where
  "build_layout_data layoutConfig =
     (let allActive = filter is_active layoutConfig;
          groups = filter (\<lambda>l. case layout_name l of None \<Rightarrow> False
                                | Some n \<Rightarrow> n \<noteq> [] \<and> startsWith n ''ArticleGroup'') allActive
      in \<lparr>allActiveLayouts = allActive, activeArticleGroups = groups,
          layoutConfigMap = name_index allActive\<rparr>)"

definition getCachedLayoutConfig_hooks :: "env \<Rightarrow> world \<Rightarrow> layout_data \<times> world" where
  "getCachedLayoutConfig_hooks e w =
     (case (if now e < hk_layoutCacheExpiry w then hk_layoutConfigCache w else None) of
        Some cached \<Rightarrow> (cached, w)
      | None \<Rightarrow>
          (case R2_layouts e of
             Doc layoutConfig \<Rightarrow>
               (let ld = build_layout_data layoutConfig
                in (ld, w\<lparr>hk_layoutConfigCache := Some ld,
                          hk_layoutCacheExpiry := now e + LAYOUT_CACHE_TTL\<rparr>))
           | _ \<Rightarrow> (empty_layout_data, w)))"

subsection \<open>ensureTableExists\<close>

definition ensureTableExists :: "env \<Rightarrow> world \<Rightarrow> world" where
  "ensureTableExists e w =
     (if tableExistsCache w \<and> now e < tableCacheExpiry w then w
      else if d1_fails e TableProbe then w
      else
        (case articles_groups w of
           Some rows \<Rightarrow> w\<lparr>tableExistsCache := True, tableCacheExpiry := now e + TABLE_CACHE_TTL\<rparr>
         | None \<Rightarrow>
             if d1_fails e TableCreate then w
             else w\<lparr>articles_groups := Some [], tableExistsCache := True,
                    tableCacheExpiry := now e + TABLE_CACHE_TTL\<rparr>))"

subsection \<open>checkArticleMatchesWhereClause\<close>

text \<open>
  \<open>s.match(re)\<close> for a pattern without the global flag: the pattern is tried at each
  position from the left, the first position where it matches wins.
\<close>

fun regex_search :: "(string \<Rightarrow> 'a option) \<Rightarrow> string \<Rightarrow> 'a option" where
  "regex_search m [] = m []"
| "regex_search m (c # s) = (case m (c # s) of Some r \<Rightarrow> Some r | None \<Rightarrow> regex_search m s)"

text \<open>
  \<^verbatim>\<open>/menu\s*=\s*['"]([^'"]+)['"]/\<close> at the head of \<open>s\<close>; the result is group 1. Every
  quantifier here is followed by a character outside its class, so the greedy match is
  the only one.
\<close>

definition menu_match_at :: "string \<Rightarrow> string option" where
  "menu_match_at s =
     (if startsWith s ''menu'' then
        (case dropWhile is_space (drop 4 s) of
           [] \<Rightarrow> None
         | c # r \<Rightarrow>
             if c = CHR ''='' then
               (case dropWhile is_space r of
                  [] \<Rightarrow> None
                | q # t \<Rightarrow>
                    if is_quote q then
                      (let v = takeWhile (\<lambda>x. \<not> is_quote x) t;
                           rest = dropWhile (\<lambda>x. \<not> is_quote x) t
                       in if v \<noteq> [] \<and> rest \<noteq> [] then Some v else None)
                    else None)
             else None)
      else None)"

text \<open>\<^verbatim>\<open>/sub_menu_id\s*=\s*(\d+)/\<close> at the head of \<open>s\<close>; the result is group 1.\<close>

definition sub_menu_id_match_at :: "string \<Rightarrow> string option" where
  "sub_menu_id_match_at s =
     (if startsWith s ''sub_menu_id'' then
        (case dropWhile is_space (drop 11 s) of
           [] \<Rightarrow> None
         | c # r \<Rightarrow>
             if c = CHR ''='' then
               (let d = takeWhile is_digit (dropWhile is_space r)
                in if d \<noteq> [] then Some d else None)
             else None)
      else None)"

text \<open>
  \<^verbatim>\<open>/(\w+)\s*=\s*['"]?([^'"]+)['"]?/\<close> at the head of \<open>s\<close>; the result is groups 1 and 2.
  After \<open>=\<close> the white space is taken greedily, then an optional quote, then the longest
  run of non-quote characters. When that run is empty (a quote or the end of the string
  follows at once) the matcher backtracks: the white-space run gives back its last
  character, which then is the whole of group 2; with no white space to give back there
  is no match at this position.
\<close>

definition simple_match_at :: "string \<Rightarrow> (string \<times> string) option" where
  "simple_match_at s =
     (let fieldName = takeWhile is_word s in
      if fieldName = [] then None
      else
        (case dropWhile is_space (dropWhile is_word s) of
           [] \<Rightarrow> None
         | c # r \<Rightarrow>
             if c = CHR ''='' then
               (let ws = takeWhile is_space r;
                    t = dropWhile is_space r;
                    t' = (case t of [] \<Rightarrow> [] | q # u \<Rightarrow> if is_quote q then u else t);
                    v = takeWhile (\<lambda>x. \<not> is_quote x) t'
                in if v \<noteq> [] then Some (fieldName, v)
                   else if ws \<noteq> [] then Some (fieldName, [last ws])
                   else None)
             else None))"

definition checkArticleMatchesWhereClause :: "obj \<Rightarrow> string \<Rightarrow> bool" where
  "checkArticleMatchesWhereClause articleData whereClause =
     (if whereClause = [] then False
      else
        (let trimmedClause = toLowerCase (trim whereClause) in
         if trimmedClause = ''1=1'' \<or> trimmedClause = ''where 1=1'' then True
         else if trimmedClause = ''0=1'' \<or> trimmedClause = ''where 0=1'' then False
         else
           (case (if str_includes whereClause ''menu=''
                  then regex_search menu_match_at whereClause else None) of
              Some expectedMenu \<Rightarrow>
                js_or (getp articleData ''menu'') (JStr '''') = JStr expectedMenu
            | None \<Rightarrow>
                (case (if str_includes whereClause ''sub_menu_id=''
                       then regex_search sub_menu_id_match_at whereClause else None) of
                   Some digits \<Rightarrow>
                     (case parseInt (getp articleData ''sub_menu_id'') of
                        None \<Rightarrow> 0
                      | Some n \<Rightarrow> n) = int (digits_val digits)
                 | None \<Rightarrow>
                     (case regex_search simple_match_at whereClause of
                        Some (fieldName, expectedValue) \<Rightarrow>
                          js_to_string (js_or (getp articleData fieldName) (JStr '''')) = expectedValue
                      | None \<Rightarrow> False)))))"

subsection \<open>Limit checks\<close>

datatype flag_type = highlight | articlegroup

record flag_check =
  flagName :: string
  fc_layout :: layout
  fc_type :: flag_type

text \<open>
  The rows that count against a flag: the flag column is \<open>'Yes'\<close> and the row belongs to
  another article (\<open>flag = 'Yes' AND article_id != current\<close>).
\<close>

definition count_others :: "obj list \<Rightarrow> string \<Rightarrow> jsval \<Rightarrow> int" where
  "count_others rows flag currentArticleId =
     int (length (filter (\<lambda>r. sql_eq (getp r flag) (JStr ''Yes'')
                              \<and> sql_ne (getp r ''article_id'') currentArticleId) rows))"

definition checkLayoutLimit :: "env \<Rightarrow> world \<Rightarrow> string \<Rightarrow> layout \<Rightarrow> jsval \<Rightarrow> bool" where
  "checkLayoutLimit e w flag activeLayout currentArticleId =
     (if \<not> D1 e then True
      else if layout_limit activeLayout \<le> 0 then True
      else
        (case d1_rows e (SingleCount flag) w of
           None \<Rightarrow> True
         | Some rows \<Rightarrow> count_others rows flag currentArticleId < layout_limit activeLayout))"

text \<open>
  The result maps a flag name to \<open>withinLimit\<close>; \<open>count\<close> and \<open>limit\<close> of the source's
  result objects are only logged. One statement counts all flags; when it throws, each
  flag is checked by \<open>checkLayoutLimit\<close>.
\<close>

definition checkMultipleLayoutLimits ::
  "env \<Rightarrow> world \<Rightarrow> flag_check list \<Rightarrow> jsval \<Rightarrow> (string \<times> bool) list" where
  "checkMultipleLayoutLimits e w flagsToCheck currentArticleId =
     (if \<not> D1 e \<or> flagsToCheck = [] then []
      else
        (case d1_rows e BatchCount w of
           Some rows \<Rightarrow>
             foldl (\<lambda>results fc.
                      let count = count_others rows (flagName fc) currentArticleId;
                          limit = layout_limit (fc_layout fc)
                      in setp results (flagName fc) (limit \<le> 0 \<or> count < limit))
                   [] flagsToCheck
         | None \<Rightarrow>
             foldl (\<lambda>results fc.
                      setp results (flagName fc)
                        (checkLayoutLimit e w (flagName fc) (fc_layout fc) currentArticleId))
                   [] flagsToCheck))"

subsection \<open>syncToArticlesGroups\<close>

definition highlight_flag :: "nat \<Rightarrow> string" where
  "highlight_flag i = ''highlight'' @ string_of_nat i @ ''_flag''"

definition highlight_layout :: "nat \<Rightarrow> string" where
  "highlight_layout i = ''Highlight'' @ string_of_nat i"

definition articlegroup_flag :: "nat \<Rightarrow> string" where
  "articlegroup_flag i = ''articlegroup'' @ string_of_nat i @ ''_flag''"

definition articlegroup_layout :: "nat \<Rightarrow> string" where
  "articlegroup_layout i = ''ArticleGroup'' @ string_of_nat i"

text \<open>The values of \<open>i\<close> in \<open>for (let i = 1; i <= 9; i++)\<close>.\<close>

definition flag_indices :: "nat list" where
  "flag_indices = [1..<10]"

text \<open>
  The first loop over the highlight flags; the state is
  \<open>(flagsToCheck, highlightFlags)\<close>.
\<close>

fun collect_highlight ::
  "layout_data \<Rightarrow> obj \<Rightarrow> nat list \<Rightarrow> flag_check list \<times> obj \<Rightarrow> flag_check list \<times> obj" where
  "collect_highlight ld data [] st = st"
| "collect_highlight ld data (i # is) (flagsToCheck, highlightFlags) =
     (let flag = highlight_flag i;
          originalFlagValue = js_or (getp data flag) (JStr ''No'')
      in collect_highlight ld data is
           (if originalFlagValue = JStr ''Yes'' then
              (case map_of (layoutConfigMap ld) (highlight_layout i) of
                 Some l \<Rightarrow>
                   if layout_limit l > 0
                   then (flagsToCheck @ [\<lparr>flagName = flag, fc_layout = l, fc_type = highlight\<rparr>],
                         highlightFlags)
                   else (flagsToCheck, setp highlightFlags flag (JStr ''Yes''))
               | None \<Rightarrow> (flagsToCheck, setp highlightFlags flag (JStr ''Yes'')))
            else (flagsToCheck, setp highlightFlags flag originalFlagValue)))"

text \<open>
  \<open>shouldInclude\<close> for an active group layout: a missing or empty \<open>where_clause\<close>
  includes every article.
\<close>

definition shouldInclude :: "obj \<Rightarrow> layout \<Rightarrow> bool" where
  "shouldInclude data activeLayout =
     (case where_clause activeLayout of
        None \<Rightarrow> True
      | Some wc \<Rightarrow> if wc = [] then True else checkArticleMatchesWhereClause data wc)"

text \<open>
  The second loop over the group flags; the state is \<open>(flagsToCheck, articleGroupFlags)\<close>.
\<close>

fun collect_articlegroup ::
  "layout_data \<Rightarrow> obj \<Rightarrow> nat list \<Rightarrow> flag_check list \<times> obj \<Rightarrow> flag_check list \<times> obj" where
  "collect_articlegroup ld data [] st = st"
| "collect_articlegroup ld data (i # is) (flagsToCheck, articleGroupFlags) =
     (let flag = articlegroup_flag i
      in collect_articlegroup ld data is
           (case find (\<lambda>l. layout_name l = Some (articlegroup_layout i)) (activeArticleGroups ld) of
              Some activeLayout \<Rightarrow>
                if shouldInclude data activeLayout \<and> layout_limit activeLayout > 0
                then (flagsToCheck @ [\<lparr>flagName = flag, fc_layout = activeLayout,
                                        fc_type = articlegroup\<rparr>],
                      articleGroupFlags)
                else if shouldInclude data activeLayout
                then (flagsToCheck, setp articleGroupFlags flag (JStr ''Yes''))
                else (flagsToCheck, setp articleGroupFlags flag (JStr ''No''))
            | None \<Rightarrow>
                (flagsToCheck,
                 setp articleGroupFlags flag (js_or (getp data flag) (JStr ''No'')))))"

text \<open>
  \<open>flagsToCheck.forEach\<close> applying the limit results; the state is
  \<open>(highlightFlags, articleGroupFlags)\<close>.
\<close>

fun apply_limit_results ::
  "(string \<times> bool) list \<Rightarrow> flag_check list \<Rightarrow> obj \<times> obj \<Rightarrow> obj \<times> obj" where
  "apply_limit_results limitResults [] st = st"
| "apply_limit_results limitResults (fc # fcs) (highlightFlags, articleGroupFlags) =
     (let v = (if map_of limitResults (flagName fc) = Some True
               then JStr ''Yes'' else JStr ''No'')
      in apply_limit_results limitResults fcs
           (if fc_type fc = highlight
            then (setp highlightFlags (flagName fc) v, articleGroupFlags)
            else (highlightFlags, setp articleGroupFlags (flagName fc) v)))"

text \<open>
  The flag resolution of \<open>syncToArticlesGroups\<close> (from "Prepare flags for batch
  processing" to the end of the batch check): the resolved
  \<open>(highlightFlags, articleGroupFlags)\<close>.
\<close>

definition flags_to_check :: "layout_data \<Rightarrow> obj \<Rightarrow> flag_check list" where
  "flags_to_check ld data =
     (let (fc1, highlightFlags) = collect_highlight ld data flag_indices ([], [])
      in fst (collect_articlegroup ld data flag_indices (fc1, [])))"

definition resolve_flags :: "env \<Rightarrow> world \<Rightarrow> layout_data \<Rightarrow> obj \<Rightarrow> jsval \<Rightarrow> obj \<times> obj" where
  "resolve_flags e w ld data articleId =
     (let (fc1, highlightFlags) = collect_highlight ld data flag_indices ([], []);
          (flagsToCheck, articleGroupFlags) =
            collect_articlegroup ld data flag_indices (fc1, [])
      in if flagsToCheck \<noteq> []
         then apply_limit_results (checkMultipleLayoutLimits e w flagsToCheck articleId)
                flagsToCheck (highlightFlags, articleGroupFlags)
         else (highlightFlags, articleGroupFlags))"

text \<open>\<open>Object.values(flags).some(flag => flag === 'Yes')\<close>\<close>

definition has_any_yes :: "obj \<Rightarrow> bool" where
  "has_any_yes flags = list_ex (\<lambda>kv. snd kv = JStr ''Yes'') flags"

text \<open>The 35 bound values of the \<open>INSERT\<close>, as the row they create.\<close>

definition insert_values :: "obj \<Rightarrow> jsval \<Rightarrow> obj \<Rightarrow> obj \<Rightarrow> int \<Rightarrow> obj" where
  "insert_values data articleId highlightFlags articleGroupFlags t =
     [(''article_id'', articleId),
      (''issue_date'', js_or (getp data ''issue_date'') JNull),
      (''starting_date'', js_or (getp data ''starting_date'') JNull),
      (''ending_date'', js_or (getp data ''ending_date'') JNull),
      (''sub_menu_id'', js_or (getp data ''sub_menu_id'') JNull),
      (''menu'', js_or (getp data ''menu'') (JStr '''')),
      (''heading'', js_or (getp data ''heading'') (JStr '''')),
      (''body'', js_or (getp data ''body'') (JStr '''')),
      (''picture_location'', js_or (getp data ''picture_location'') (JStr '''')),
      (''picture2_location'', js_or (getp data ''picture2_location'') (JStr '''')),
      (''by_line'', js_or (getp data ''by_line'') (JStr ''''))]
     @ map (\<lambda>i. (highlight_flag i, getp highlightFlags (highlight_flag i))) flag_indices
     @ map (\<lambda>i. (articlegroup_flag i, getp articleGroupFlags (articlegroup_flag i)))
         flag_indices
     @ [(''unique_file'', js_or (getp data ''unique_file'') (JStr '''')),
        (''active'', js_or (getp data ''active'') (JStr ''Yes'')),
        (''created_by'', js_or (getp data ''created_by'') JNull),
        (''creation_date'', js_or (getp data ''creation_date'') (JNum t)),
        (''last_updated_by'', js_or (getp data ''last_updated_by'') JNull),
        (''last_update_date'', js_or (getp data ''last_update_date'') (JNum t))]"

text \<open>
  \<open>UPDATE articles_groups SET last_update_date = ?, <flags> WHERE article_id = ?\<close>
\<close>

definition update_row :: "obj \<Rightarrow> obj \<Rightarrow> int \<Rightarrow> obj \<Rightarrow> obj" where
  "update_row highlightFlags articleGroupFlags t r =
     foldl (\<lambda>r' (k, v). setp r' k v) r
       ((''last_update_date'', JNum t) # highlightFlags @ articleGroupFlags)"

definition update_rows :: "jsval \<Rightarrow> obj \<Rightarrow> obj \<Rightarrow> int \<Rightarrow> obj list \<Rightarrow> obj list" where
  "update_rows articleId highlightFlags articleGroupFlags t rows =
     map (\<lambda>r. if sql_eq (getp r ''article_id'') articleId
              then update_row highlightFlags articleGroupFlags t r else r) rows"

text \<open>\<open>DELETE FROM articles_groups WHERE article_id = ?\<close>\<close>

definition delete_rows :: "jsval \<Rightarrow> obj list \<Rightarrow> obj list" where
  "delete_rows articleId rows = filter (\<lambda>r. \<not> sql_eq (getp r ''article_id'') articleId) rows"

datatype operation = create | update

text \<open>The body of the \<open>try\<close> block of \<open>syncToArticlesGroups\<close>.\<close>

definition sync_try :: "obj \<Rightarrow> env \<Rightarrow> operation \<Rightarrow> jsval \<Rightarrow> world \<Rightarrow> (error + unit) \<times> world" where
  "sync_try data e operation articleId w =
     (let (layoutData, w1) = getCachedLayoutConfig_hooks e w;
          w2 = ensureTableExists e w1;
          (highlightFlags, articleGroupFlags) = resolve_flags e w2 layoutData data articleId;
          hasAnyHighlight = has_any_yes highlightFlags;
          hasAnyArticleGroup = has_any_yes articleGroupFlags
      in case operation of
           create \<Rightarrow>
             if \<not> hasAnyHighlight \<and> \<not> hasAnyArticleGroup then (Inr (), w2)
             else d1_run e InsertRow
                    (\<lambda>rows. rows @ [insert_values data articleId highlightFlags
                                       articleGroupFlags (now e)]) w2
         | update \<Rightarrow>
             if \<not> (hasAnyHighlight \<or> hasAnyArticleGroup)
             then d1_run e DeleteRow (delete_rows articleId) w2
             else
               (case d1_rows e SelectExisting w2 of
                  None \<Rightarrow> (Inl D1Error, w2)
                | Some rows \<Rightarrow>
                    if list_ex (\<lambda>r. sql_eq (getp r ''article_id'') articleId) rows
                    then d1_run e UpdateRow
                           (update_rows articleId highlightFlags articleGroupFlags (now e)) w2
                    else d1_run e InsertRow
                           (\<lambda>rows. rows @ [insert_values data articleId highlightFlags
                                              articleGroupFlags (now e)]) w2))"

text \<open>
  \<open>syncToArticlesGroups\<close> returns nothing; whatever the \<open>try\<close> block throws is caught
  and logged.
\<close>

definition syncToArticlesGroups :: "obj \<Rightarrow> env \<Rightarrow> operation \<Rightarrow> world \<Rightarrow> world" where
  "syncToArticlesGroups data e operation w =
     (if \<not> D1 e then w
      else
        (let articleId = getp data ''article_id'' in
         if \<not> truthy articleId then w
         else snd (sync_try data e operation articleId w)))"

text \<open>
  \<open>deleteFromArticlesGroups\<close> logs and rethrows the error of its statement; binding
  \<open>undefined\<close> is an error of the statement.
\<close>

definition deleteFromArticlesGroups :: "jsval \<Rightarrow> env \<Rightarrow> world \<Rightarrow> (error + unit) \<times> world" where
  "deleteFromArticlesGroups articleId e w =
     (if \<not> D1 e then (Inr (), w)
      else if articleId = JUndefined then (Inl TypeError, w)
      else d1_run e DeleteRow (delete_rows articleId) w)"

section \<open>Article_layout_process.js\<close>

subsection \<open>getCachedLayoutConfig\<close>

text \<open>The processor's own loader throws where the hooks' loader returns an empty result.\<close>

definition getCachedLayoutConfig_process :: "env \<Rightarrow> world \<Rightarrow> (error + layout list) \<times> world" where
  "getCachedLayoutConfig_process e w =
     (case (if now e < lp_layoutCacheExpiry w then lp_layoutConfigCache w else None) of
        Some cached \<Rightarrow> (Inr cached, w)
      | None \<Rightarrow>
          (case R2_layouts e of
             GetThrows \<Rightarrow> (Inl R2Error, w)
           | NotFound \<Rightarrow> (Inl LayoutsNotFound, w)
           | BadJson \<Rightarrow> (Inl JsonError, w)
           | Doc layoutsRaw \<Rightarrow>
               (let layouts = filter is_active layoutsRaw
                in (Inr layouts, w\<lparr>lp_layoutConfigCache := Some layouts,
                                    lp_layoutCacheExpiry := now e + LAYOUT_CACHE_TTL\<rparr>))))"

subsection \<open>getCachedArticles\<close>

text \<open>
  The order of \<open>ORDER BY issue_date DESC\<close>: \<open>NULL\<close> sorts below every number and
  numbers below text. SQLite leaves the order of rows with equal keys open; the model
  keeps them in table order.
\<close>

fun sql_lt :: "jsval \<Rightarrow> jsval \<Rightarrow> bool" where
  "sql_lt (JNum x) (JNum y) = (x < y)"
| "sql_lt (JNum x) (JStr t) = True"
| "sql_lt (JStr s) (JStr t) = str_lt s t"
| "sql_lt (JStr s) (JNum y) = False"
| "sql_lt a (JNum y) = True"
| "sql_lt a (JStr t) = True"
| "sql_lt a b = False"

fun insert_desc :: "obj \<Rightarrow> obj list \<Rightarrow> obj list" where
  "insert_desc r [] = [r]"
| "insert_desc r (x # xs) =
     (if sql_lt (getp x ''issue_date'') (getp r ''issue_date'') then r # x # xs
      else x # insert_desc r xs)"

definition order_by_issue_date_desc :: "obj list \<Rightarrow> obj list" where
  "order_by_issue_date_desc rows = foldl (\<lambda>acc r. insert_desc r acc) [] rows"

text \<open>\<open>SELECT * FROM articles_groups WHERE Active = 'Yes' ORDER BY issue_date DESC\<close>\<close>

definition select_active :: "obj list \<Rightarrow> obj list" where
  "select_active rows =
     order_by_issue_date_desc (filter (\<lambda>r. sql_eq (getp r ''active'') (JStr ''Yes'')) rows)"

text \<open>
  The inner loop over the properties of article number \<open>i\<close>: a property whose name ends
  in \<open>_flag\<close> and whose value is \<open>yes\<close> in any letter case adds the article to that key's
  list. A truthy number has no \<open>toLowerCase\<close>, which is a \<open>TypeError\<close>.
\<close>

fun group_entries ::
  "nat \<Rightarrow> obj \<Rightarrow> (string \<times> nat list) list \<Rightarrow> error + (string \<times> nat list) list" where
  "group_entries i [] m = Inr m"
| "group_entries i ((key, val) # kvs) m =
     (if endsWith key ''_flag'' \<and> truthy val then
        (case val of
           JStr s \<Rightarrow>
             if toLowerCase s = ''yes''
             then group_entries i kvs
                    (setp m key ((case map_of m key of None \<Rightarrow> [] | Some l \<Rightarrow> l) @ [i]))
             else group_entries i kvs m
         | _ \<Rightarrow> Inl TypeError)
      else group_entries i kvs m)"

fun group_articles ::
  "nat \<Rightarrow> obj list \<Rightarrow> (string \<times> nat list) list \<Rightarrow> error + (string \<times> nat list) list" where
  "group_articles i [] m = Inr m"
| "group_articles i (article # rest) m =
     (case group_entries i article m of
        Inl err \<Rightarrow> Inl err
      | Inr m' \<Rightarrow> group_articles (Suc i) rest m')"

definition getCachedArticles :: "env \<Rightarrow> world \<Rightarrow> (error + articles_cache) \<times> world" where
  "getCachedArticles e w =
     (case (if now e < articlesCacheExpiry w then articlesCache w else None) of
        Some cached \<Rightarrow> (Inr cached, w)
      | None \<Rightarrow>
          if \<not> D1 e then (Inl TypeError, w)
          else
            (case d1_rows e SelectActive w of
               None \<Rightarrow> (Inl D1Error, w)
             | Some rows \<Rightarrow>
                 (let allArticles = select_active rows in
                  case group_articles 0 allArticles [] of
                    Inl err \<Rightarrow> (Inl err, w)
                  | Inr grouped \<Rightarrow>
                      (let cache = \<lparr>all_articles = allArticles, byHighlight = grouped\<rparr>
                       in (Inr cache, w\<lparr>articlesCache := Some cache,
                                        articlesCacheExpiry := now e + ARTICLES_CACHE_TTL\<rparr>)))))"

subsection \<open>The custom sort\<close>

text \<open>\<open>s.split(',')\<close>\<close>

fun split_comma :: "string \<Rightarrow> string list" where
  "split_comma [] = [[]]"
| "split_comma (c # s) =
     (if c = CHR '','' then [] # split_comma s
      else (case split_comma s of [] \<Rightarrow> [[c]] | p # ps \<Rightarrow> (c # p) # ps))"

text \<open>
  \<open>const [field, dir] = orderItem.split(/\s+/)\<close> on a trimmed item: the first piece and,
  when there is one, the second.
\<close>

definition order_field :: "string \<Rightarrow> string" where
  "order_field orderItem = takeWhile (\<lambda>c. \<not> is_space c) orderItem"

definition order_dir :: "string \<Rightarrow> string option" where
  "order_dir orderItem =
     (let r = dropWhile (\<lambda>c. \<not> is_space c) orderItem in
      if r = [] then None
      else Some (takeWhile (\<lambda>c. \<not> is_space c) (dropWhile is_space r)))"

text \<open>
  The comparator of the sort, over the list \<open>orders\<close>. A field name that is not made of
  letters, digits and underscores throws. When both values are numeric they are
  compared as numbers; otherwise they are compared as they are, and \<open>>\<close> is then the
  order of strings for two strings and false for every other pair, one side being
  \<open>NaN\<close> as a number. The result is the sign the comparator returns.
\<close>

fun compare_articles :: "string list \<Rightarrow> obj \<Rightarrow> obj \<Rightarrow> error + int" where
  "compare_articles [] a b = Inr 0"
| "compare_articles (orderItem # orders) a b =
     (let field = order_field orderItem; dir = order_dir orderItem;
          asc = (case dir of None \<Rightarrow> False | Some d \<Rightarrow> d \<noteq> [] \<and> toUpperCase d = ''ASC'')
      in if field = [] \<or> \<not> list_all is_word field then Inl (InvalidOrderField field)
      else
        (case (to_num (getp a field), to_num (getp b field)) of
           (Some x, Some y) \<Rightarrow>
             if num_eq x y then compare_articles orders a b
             else if asc then Inr (if num_lt y x then 1 else - 1)
             else Inr (if num_lt y x then - 1 else 1)
         | _ \<Rightarrow>
             (let gt = (case (getp a field, getp b field) of
                          (JStr s, JStr t) \<Rightarrow> str_lt t s
                        | _ \<Rightarrow> False)
              in if getp a field = getp b field then compare_articles orders a b
                 else if asc then Inr (if gt then 1 else - 1)
                 else Inr (if gt then - 1 else 1))))"

text \<open>
  \<open>[...articles].sort(cmp)\<close>. The sort is stable and calls the comparator only when
  there are two articles or more. It is modelled as an insertion sort: each article in
  turn is compared with the articles already placed, from the left, and goes before the
  first one it sorts below. For a comparator that is a consistent order this is the
  result of every stable sort. The comparator above is not a consistent order on
  every list (for a number and a value that is not numeric it returns the same sign in
  both directions): there \<open>Array.prototype.sort\<close> leaves the order to the
  implementation, and only the members of the result are determined.
\<close>

fun sort_insert :: "(nat \<Rightarrow> nat \<Rightarrow> error + int) \<Rightarrow> nat \<Rightarrow> nat list \<Rightarrow> error + nat list" where
  "sort_insert cmp x [] = Inr [x]"
| "sort_insert cmp x (y # ys) =
     (case cmp x y of
        Inl err \<Rightarrow> Inl err
      | Inr c \<Rightarrow>
          if c < 0 then Inr (x # y # ys)
          else (case sort_insert cmp x ys of Inl err \<Rightarrow> Inl err | Inr zs \<Rightarrow> Inr (y # zs)))"

fun sort_from :: "(nat \<Rightarrow> nat \<Rightarrow> error + int) \<Rightarrow> nat list \<Rightarrow> nat list \<Rightarrow> error + nat list" where
  "sort_from cmp placed [] = Inr placed"
| "sort_from cmp placed (x # xs) =
     (case sort_insert cmp x placed of
        Inl err \<Rightarrow> Inl err
      | Inr placed' \<Rightarrow> sort_from cmp placed' xs)"

text \<open>An article reference that is out of range reads as the empty object.\<close>

definition deref :: "obj list \<Rightarrow> nat \<Rightarrow> obj" where
  "deref heap a = (if a < length heap then heap ! a else [])"

definition sort_articles :: "layout \<Rightarrow> obj list \<Rightarrow> nat list \<Rightarrow> error + nat list" where
  "sort_articles l heap articles =
     (case layout_order l of
        None \<Rightarrow> Inr articles
      | Some lo \<Rightarrow>
          if trim lo = [] then Inr articles
          else
            (let orders = map trim (split_comma lo)
             in sort_from (\<lambda>a b. compare_articles orders (deref heap a) (deref heap b))
                  [] articles))"

subsection \<open>String replacement\<close>

fun indexOf :: "string \<Rightarrow> string \<Rightarrow> nat option" where
  "indexOf [] p = (if p = [] then Some 0 else None)"
| "indexOf (c # s) p = (if startsWith (c # s) p then Some 0 else map_option Suc (indexOf s p))"

text \<open>\<open>s.substring(a, b)\<close>: the arguments are swapped when \<open>a > b\<close>.\<close>

definition substring :: "string \<Rightarrow> nat \<Rightarrow> nat \<Rightarrow> string" where
  "substring s a b = take (max a b - min a b) (drop (min a b) s)"

text \<open>
  The replacement text of \<open>String.prototype.replace\<close> when the replacement is a
  string: \<open>$$\<close> is a dollar sign, \<open>$&\<close> the matched text, \<open>$`\<close> the text before the
  match and \<open>$'\<close> the text after it. The patterns used here have no capture groups, so
  \<open>$1\<close> and the like stay as they are.
\<close>

fun expand_replacement :: "string \<Rightarrow> string \<Rightarrow> string \<Rightarrow> string \<Rightarrow> string" where
  "expand_replacement [] matched pre post = []"
| "expand_replacement [c] matched pre post = [c]"
| "expand_replacement (c # d # r) matched pre post =
     (if c = CHR ''$'' then
        (if d = CHR ''$'' then CHR ''$'' # expand_replacement r matched pre post
         else if d = CHR ''&'' then matched @ expand_replacement r matched pre post
         else if d = CHR 0x60 then pre @ expand_replacement r matched pre post
         else if d = CHR 0x27 then post @ expand_replacement r matched pre post
         else c # expand_replacement (d # r) matched pre post)
      else c # expand_replacement (d # r) matched pre post)"

text \<open>
  \<open>s.replace(new RegExp(pat, 'g'), repl)\<close> for a pattern that matches the text \<open>pat\<close>
  literally: every occurrence from the left, without overlap. \<open>pre\<close> is the part of the
  subject already passed, \<open>skip\<close> the number of characters still inside the last match.
\<close>

fun replace_all :: "string \<Rightarrow> string \<Rightarrow> string \<Rightarrow> nat \<Rightarrow> string \<Rightarrow> string" where
  "replace_all pat repl pre skip [] = []"
| "replace_all pat repl pre skip (c # s) =
     (if skip > 0 then replace_all pat repl (pre @ [c]) (skip - 1) s
      else if pat \<noteq> [] \<and> startsWith (c # s) pat then
        expand_replacement repl pat pre (drop (length pat) (c # s))
          @ replace_all pat repl (pre @ [c]) (length pat - 1) s
      else c # replace_all pat repl (pre @ [c]) 0 s)"

text \<open>
  \<open>rendered.replace(new RegExp(`{{${key}}}`, 'g'), value || '')\<close>. Property names are
  column names, which the pattern matches literally.
\<close>

definition replace_placeholder :: "string \<Rightarrow> jsval \<Rightarrow> string \<Rightarrow> string" where
  "replace_placeholder key val rendered =
     replace_all (''{{'' @ key @ ''}}'') (js_to_string (js_or val (JStr ''''))) [] 0 rendered"

subsection \<open>Conditional blocks\<close>

text \<open>A condition: the field, and the operator and the value when they are present.\<close>

type_synonym cond = "string \<times> string option \<times> string option"

definition is_op :: "char \<Rightarrow> bool" where
  "is_op c = (c \<in> set ''=!<>'')"

definition is_valchar :: "char \<Rightarrow> bool" where
  "is_valchar c = (is_word c \<or> c = CHR ''.'' \<or> c = CHR ''-'')"

text \<open>
  \<^verbatim>\<open>{{kw\s+([\w]+)(?:\s*([=!<>]{1,2})\s*([\w.-]+))?}}\<close> at the head of \<open>s\<close>, with \<open>kw\<close>
  in any letter case; the result is the condition and the text after the header. Each
  quantifier is followed by a character outside its class, so a shorter match of any of
  them cannot succeed where the greedy one fails.
\<close>

definition cond_header_at :: "string \<Rightarrow> string \<Rightarrow> (cond \<times> string) option" where
  "cond_header_at kw s =
     (let n = length kw + 2 in
      if toLowerCase (take n s) = ''{{'' @ toLowerCase kw then
        (let r1 = drop n s;
             r2 = dropWhile is_space r1;
             field = takeWhile is_word r2;
             r3 = dropWhile is_word r2;
             r4 = dropWhile is_space r3;
             op = takeWhile is_op (take 2 r4);
             r5 = dropWhile is_space (drop (length op) r4);
             val = takeWhile is_valchar r5;
             r6 = dropWhile is_valchar r5
         in if length r2 = length r1 \<or> field = [] then None
            else if op \<noteq> [] \<and> val \<noteq> [] \<and> startsWith r6 ''}}''
            then Some ((field, Some op, Some val), drop 2 r6)
            else if startsWith r3 ''}}'' then Some ((field, None, None), drop 2 r3)
            else None)
      else None)"

definition is_else_token :: "string \<Rightarrow> bool" where
  "is_else_token s = (toLowerCase (take 8 s) = ''{{else}}'')"

definition is_endif_token :: "string \<Rightarrow> bool" where
  "is_endif_token s = (toLowerCase (take 9 s) = ''{{endif}}'')"

definition is_elseif_header :: "string \<Rightarrow> bool" where
  "is_elseif_header s = (cond_header_at ''ElseIf'' s \<noteq> None)"

text \<open>The text before the first position where \<open>P\<close> holds, and the text from there on.\<close>

fun split_at_first :: "(string \<Rightarrow> bool) \<Rightarrow> string \<Rightarrow> (string \<times> string) option" where
  "split_at_first P [] = (if P [] then Some ([], []) else None)"
| "split_at_first P (c # s) =
     (if P (c # s) then Some ([], c # s)
      else map_option (\<lambda>(a, b). (c # a, b)) (split_at_first P s))"

record if_match =
  ifCond :: cond
  ifContent :: string
  elseIfBlocks :: "string option"
  elseContent :: "string option"

text \<open>
  The pattern of the conditional block at the head of \<open>s\<close>:
  \<^verbatim>\<open>{{If ..}}([\s\S]*?)((?:{{ElseIf ..}}[\s\S]*?)*)?(?:{{Else}}([\s\S]*?))?{{EndIf}}\<close>
  with flags \<open>gi\<close>. The result is the groups and the length of the match.

  After the header every part of the pattern can take any text lazily, so the match
  ends at the first \<open>{{EndIf}}\<close> after the header, and there is none without one. The
  \<open>If\<close> content stops at the first \<open>{{ElseIf ..}}\<close> header or \<open>{{Else}}\<close> before that
  \<open>{{EndIf}}\<close>. When it stops at an \<open>{{ElseIf ..}}\<close> header, the \<open>ElseIf\<close> group runs up
  to the first \<open>{{Else}}\<close>, or to the \<open>{{EndIf}}\<close>. The \<open>Else\<close> content is what follows
  \<open>{{Else}}\<close>.
\<close>

definition if_match_at :: "string \<Rightarrow> (if_match \<times> nat) option" where
  "if_match_at s =
     (case cond_header_at ''If'' s of
        None \<Rightarrow> None
      | Some (c, body) \<Rightarrow>
          (case split_at_first is_endif_token body of
             None \<Rightarrow> None
           | Some (inner, rest) \<Rightarrow>
               (let len = length s - length rest + 9 in
                case split_at_first (\<lambda>t. is_elseif_header t \<or> is_else_token t) inner of
                  None \<Rightarrow>
                    Some (\<lparr>ifCond = c, ifContent = inner, elseIfBlocks = None,
                           elseContent = None\<rparr>, len)
                | Some (ic, tail) \<Rightarrow>
                    if is_else_token tail then
                      Some (\<lparr>ifCond = c, ifContent = ic, elseIfBlocks = None,
                             elseContent = Some (drop 8 tail)\<rparr>, len)
                    else
                      (case split_at_first is_else_token tail of
                         None \<Rightarrow>
                           Some (\<lparr>ifCond = c, ifContent = ic, elseIfBlocks = Some tail,
                                  elseContent = None\<rparr>, len)
                       | Some (blocks, el) \<Rightarrow>
                           Some (\<lparr>ifCond = c, ifContent = ic, elseIfBlocks = Some blocks,
                                  elseContent = Some (drop 8 el)\<rparr>, len)))))"

text \<open>
  \<open>elseIfPattern\<close> at the head of \<open>s\<close>: an \<open>{{ElseIf ..}}\<close> header, then the shortest text
  that is followed by \<open>{{ElseIf\<close>, \<open>{{Else}}\<close> or \<open>{{EndIf}}\<close> (the lookahead). The result
  is the condition, the content and the length of the match.
\<close>

definition elseif_lookahead :: "string \<Rightarrow> bool" where
  "elseif_lookahead s =
     (toLowerCase (take 8 s) = ''{{elseif'' \<or> is_else_token s \<or> is_endif_token s)"

definition elseif_match_at :: "string \<Rightarrow> ((cond \<times> string) \<times> nat) option" where
  "elseif_match_at s =
     (case cond_header_at ''ElseIf'' s of
        None \<Rightarrow> None
      | Some (c, body) \<Rightarrow>
          (case split_at_first elseif_lookahead body of
             None \<Rightarrow> None
           | Some (content, rest) \<Rightarrow> Some ((c, content), length s - length rest)))"

text \<open>The matches that the \<open>while ((m = elseIfPattern.exec(..)) !== null)\<close> loop sees.\<close>

fun elseif_matches :: "nat \<Rightarrow> string \<Rightarrow> (cond \<times> string) list" where
  "elseif_matches skip [] = []"
| "elseif_matches skip (c # s) =
     (if skip > 0 then elseif_matches (skip - 1) s
      else
        (case elseif_match_at (c # s) of
           None \<Rightarrow> elseif_matches 0 s
         | Some (m, len) \<Rightarrow> m # elseif_matches (len - 1) s))"

text \<open>
  The two sides of a comparison after \<open>if (!isNaN(x)) x = Number(x)\<close>: a number, a
  string that is not numeric, or \<open>undefined\<close>. \<open>==\<close> and the order comparisons of
  JavaScript on these: numbers by value, strings by code units, and \<open>false\<close> for a
  number against a string that is not numeric and for \<open>undefined\<close> against anything
  but itself.
\<close>

datatype operand = ONum jsnum | OStr string | OUndef

definition operand_of :: "jsval \<Rightarrow> operand" where
  "operand_of v =
     (case to_num v of
        Some x \<Rightarrow> ONum x
      | None \<Rightarrow> (case v of JStr s \<Rightarrow> OStr s | _ \<Rightarrow> OUndef))"

definition expected_operand :: "string option \<Rightarrow> operand" where
  "expected_operand expected =
     (case expected of
        None \<Rightarrow> OUndef
      | Some v \<Rightarrow> (case js_number v of Some x \<Rightarrow> ONum x | None \<Rightarrow> OStr v))"

fun op_eq :: "operand \<Rightarrow> operand \<Rightarrow> bool" where
  "op_eq (ONum x) (ONum y) = num_eq x y"
| "op_eq (OStr s) (OStr t) = (s = t)"
| "op_eq OUndef OUndef = True"
| "op_eq a b = False"

fun op_lt :: "operand \<Rightarrow> operand \<Rightarrow> bool" where
  "op_lt (ONum x) (ONum y) = num_lt x y"
| "op_lt (OStr s) (OStr t) = str_lt s t"
| "op_lt a b = False"

fun op_le :: "operand \<Rightarrow> operand \<Rightarrow> bool" where
  "op_le (ONum x) (ONum y) = num_le x y"
| "op_le (OStr s) (OStr t) = (\<not> str_lt t s)"
| "op_le a b = False"

text \<open>\<open>Boolean(actual && actual.toString().trim() !== '')\<close>\<close>

fun op_truthy :: "operand \<Rightarrow> bool" where
  "op_truthy (ONum x) = (\<not> num_eq x (Dec 0 0))"
| "op_truthy (OStr s) = (s \<noteq> [] \<and> trim s \<noteq> [])"
| "op_truthy OUndef = False"

definition checkCondition :: "obj \<Rightarrow> cond \<Rightarrow> bool" where
  "checkCondition art c =
     (case c of (field, operator, expected0) \<Rightarrow>
        (let actual = operand_of (getp art field);
             expected = expected_operand expected0
         in if operator = Some ''='' \<or> operator = Some ''=='' then op_eq actual expected
            else if operator = Some ''!='' then \<not> op_eq actual expected
            else if operator = Some ''>'' then op_lt expected actual
            else if operator = Some ''<'' then op_lt actual expected
            else if operator = Some ''>='' then op_le expected actual
            else if operator = Some ''<='' then op_le actual expected
            else op_truthy actual))"

text \<open>
  \<open>if (!isNaN(v)) countLimit = Number(v)\<close> for the value of a branch that matched;
  a condition without a value leaves the limit as it is.
\<close>

definition override_limit :: "cond \<Rightarrow> jsnum \<Rightarrow> jsnum" where
  "override_limit c countLimit =
     (case c of (field, operator, expected) \<Rightarrow>
        (case expected of
           None \<Rightarrow> countLimit
         | Some v \<Rightarrow> (case js_number v of Some x \<Rightarrow> x | None \<Rightarrow> countLimit)))"

text \<open>The replacement callback: the branch it returns and the limit it leaves.\<close>

definition if_callback :: "obj \<Rightarrow> if_match \<Rightarrow> jsnum \<Rightarrow> string \<times> jsnum" where
  "if_callback art m countLimit =
     (if checkCondition art (ifCond m) then (ifContent m, override_limit (ifCond m) countLimit)
      else
        (case find (\<lambda>(c, content). checkCondition art c)
                (case elseIfBlocks m of None \<Rightarrow> [] | Some b \<Rightarrow> elseif_matches 0 b) of
           Some (c, content) \<Rightarrow> (content, override_limit c countLimit)
         | None \<Rightarrow> (case elseContent m of None \<Rightarrow> [] | Some t \<Rightarrow> t, countLimit)))"

text \<open>
  \<open>rendered.replace(/{{If ..}} .. {{EndIf}}/gi, callback)\<close>: the callback runs on each
  match from the left and may change \<open>countLimit\<close>.
\<close>

fun replace_if_blocks :: "obj \<Rightarrow> nat \<Rightarrow> string \<Rightarrow> jsnum \<Rightarrow> string \<times> jsnum" where
  "replace_if_blocks art skip [] countLimit = ([], countLimit)"
| "replace_if_blocks art skip (c # s) countLimit =
     (if skip > 0 then replace_if_blocks art (skip - 1) s countLimit
      else
        (case if_match_at (c # s) of
           None \<Rightarrow>
             (let (r, lim) = replace_if_blocks art 0 s countLimit in (c # r, lim))
         | Some (m, len) \<Rightarrow>
             (let (branch, lim1) = if_callback art m countLimit;
                  (r, lim2) = replace_if_blocks art (len - 1) s lim1
              in (branch @ r, lim2))))"

subsection \<open>The repeat block\<close>

text \<open>One pass of the loop body for the article \<open>art\<close>, whose \<open>Counter\<close> is already set.\<close>

definition render_item :: "string \<Rightarrow> obj \<Rightarrow> jsnum \<Rightarrow> string \<times> jsnum" where
  "render_item repeatBlock art countLimit =
     (let (rendered, lim) = replace_if_blocks art 0 repeatBlock countLimit
      in (foldl (\<lambda>r (key, val). replace_placeholder key val r) rendered art, lim))"

text \<open>
  \<open>for (let art of articles)\<close>: \<open>idx\<close> is the number of articles already rendered. The
  \<open>Counter\<close> is written into the cached article object itself. The test
  \<open>if (idx >= countLimit) break\<close> comes after the article is rendered.
\<close>

fun repeat_loop :: "string \<Rightarrow> obj list \<Rightarrow> nat list \<Rightarrow> nat \<Rightarrow> jsnum \<Rightarrow> string \<times> obj list" where
  "repeat_loop repeatBlock heap [] idx countLimit = ([], heap)"
| "repeat_loop repeatBlock heap (a # articles) idx countLimit =
     (let art = setp (deref heap a) ''Counter'' (JNum (int (Suc idx)));
          heap1 = heap[a := art];
          (rendered, lim) = render_item repeatBlock art countLimit
      in if num_le lim (Dec (int (Suc idx)) 0) then (rendered, heap1)
         else (let (more, heap2) = repeat_loop repeatBlock heap1 articles (Suc idx) lim
               in (rendered @ more, heap2)))"

text \<open>The template step of one layout: the text \<open>html\<close> before the style and script wrappers.\<close>

definition render_template :: "layout \<Rightarrow> obj list \<Rightarrow> nat list \<Rightarrow> string \<times> obj list" where
  "render_template l heap articles =
     (let template = replace_all ''{{LayoutDisplayName}}''
                       (case layout_display_name l of None \<Rightarrow> [] | Some d \<Rightarrow> d) [] 0
                       (case layout_body l of None \<Rightarrow> [] | Some b \<Rightarrow> b)
      in case (indexOf template ''{{RepeatBegin}}'', indexOf template ''{{RepeatEnd}}'') of
           (Some repeatStart, Some repeatEnd) \<Rightarrow>
             (let beforeBlock = substring template 0 repeatStart;
                  repeatBlock = substring template (repeatStart + 15) repeatEnd;
                  afterBlock = drop (repeatEnd + 13) template;
                  countLimit = Dec (if layout_limit l \<noteq> 0 then layout_limit l
                                    else int (length articles)) 0;
                  (body, heap1) = repeat_loop repeatBlock heap articles 0 countLimit
              in (beforeBlock @ body @ afterBlock, heap1))
         | _ \<Rightarrow> (template, heap))"

subsection \<open>Article_layout_process\<close>

record render_result =
  res_layout_name :: "string option"
  res_function :: "string option"
  res_file :: "string option"
  filtered_by :: string
  article_count :: nat
  status :: string

text \<open>The variables the loop over the layouts updates; an R2 operation is
  \<open>(fileName, contentToSave, contentType)\<close>.\<close>

record loop_state =
  combinedJsContent :: string
  results :: "render_result list"
  r2Operations :: "(string \<times> string \<times> string) list"

text \<open>\<open>fileName.split('.').pop().toLowerCase()\<close>\<close>

definition file_ext :: "string \<Rightarrow> string" where
  "file_ext fileName = toLowerCase (rev (takeWhile (\<lambda>c. c \<noteq> CHR ''.'') (rev fileName)))"

definition content_type :: "string \<Rightarrow> string" where
  "content_type ext =
     (if ext = ''js'' then ''application/javascript''
      else if ext = ''xml'' then ''application/xml''
      else if ext = ''json'' then ''application/json''
      else if ext = ''rss'' then ''application/rss+xml''
      else ''application/octet-stream'')"

definition name_starts :: "layout \<Rightarrow> string \<Rightarrow> bool" where
  "name_starts l p =
     (case layout_name l of None \<Rightarrow> False | Some n \<Rightarrow> n \<noteq> [] \<and> startsWith (toLowerCase n) p)"

text \<open>
  The cached list a layout works on: the flag's list for a \<open>highlight*\<close> layout, all
  articles otherwise.
\<close>

definition select_articles :: "(string \<times> nat list) list \<Rightarrow> layout \<Rightarrow> obj list \<Rightarrow> nat list" where
  "select_articles byH l heap =
     (if name_starts l ''highlight'' then
        (case map_of byH
                (toLowerCase (case layout_name l of None \<Rightarrow> [] | Some n \<Rightarrow> n) @ ''_flag'') of
           None \<Rightarrow> []
         | Some xs \<Rightarrow> xs)
      else [0..<length heap])"

text \<open>
  One turn of \<open>for (const layout of layouts)\<close>. The article objects are shared with the
  cache, so the turn also returns them as the rendering left them.
\<close>

definition process_layout ::
  "(string \<times> nat list) list \<Rightarrow> layout \<Rightarrow> loop_state \<Rightarrow> obj list
     \<Rightarrow> (error + loop_state) \<times> obj list" where
  "process_layout byH l st heap =
     (if (case layout_body l of None \<Rightarrow> True | Some b \<Rightarrow> b = []) then (Inr st, heap)
      else if name_starts l ''menu'' then
        (Inr (st\<lparr>results := results st @
                  [\<lparr>res_layout_name = layout_name l, res_function = None, res_file = None,
                    filtered_by = ''skipped (menu*)'', article_count = 0,
                    status = ''skipped''\<rparr>]\<rparr>), heap)
      else
        (case sort_articles l heap (select_articles byH l heap) of
           Inl err \<Rightarrow> (Inl err, heap)
         | Inr articles \<Rightarrow>
             (let (html0, heap1) = render_template l heap articles;
                  html = html0
                    @ (case layout_css l of None \<Rightarrow> []
                       | Some css \<Rightarrow> if css = [] then [] else ''<style>'' @ css @ ''</style>'')
                    @ (case layout_js l of None \<Rightarrow> []
                       | Some js \<Rightarrow> if js = [] then [] else ''<script>'' @ js @ ''</script>'');
                  fileName = (case layout_file l of None \<Rightarrow> ''layout.js''
                              | Some f \<Rightarrow> if f = [] then ''layout.js'' else f);
                  ext = file_ext fileName
              in case layout_name l of
                   None \<Rightarrow> (Inl TypeError, heap1)
                 | Some name \<Rightarrow>
                     (let functionName = ''Get'' @ filter (\<lambda>c. \<not> is_space c) name;
                          contentToSave =
                            (if ext = ''js''
                             then ''function '' @ functionName @ ''(){document.write(`'' @ html
                                    @ ''`);}'' @ [CHR 0x0A, CHR 0x0A]
                             else html)
                      in (Inr \<lparr>combinedJsContent =
                                  (if ext = ''js'' then combinedJsContent st @ contentToSave
                                   else combinedJsContent st),
                                results = results st @
                                  [\<lparr>res_layout_name = layout_name l,
                                    res_function = (if ext = ''js'' then Some functionName else None),
                                    res_file = Some fileName,
                                    filtered_by = (if name_starts l ''highlight'' then ''yes'' else ''none''),
                                    article_count = length articles,
                                    status = ''added''\<rparr>],
                                r2Operations = r2Operations st @
                                  [(fileName, contentToSave, content_type ext)]\<rparr>,
                          heap1)))))"

fun process_layouts ::
  "(string \<times> nat list) list \<Rightarrow> layout list \<Rightarrow> loop_state \<Rightarrow> obj list
     \<Rightarrow> (error + loop_state) \<times> obj list" where
  "process_layouts byH [] st heap = (Inr st, heap)"
| "process_layouts byH (l # ls) st heap =
     (case process_layout byH l st heap of
        (Inl err, heap1) \<Rightarrow> (Inl err, heap1)
      | (Inr st1, heap1) \<Rightarrow> process_layouts byH ls st1 heap1)"

text \<open>What the function returns (the timing figures are left out).\<close>

record process_result =
  pr_status :: string
  details :: "render_result list"
  files_written :: nat

text \<open>
  The \<open>catch\<close> of \<open>Article_layout_process\<close> logs and rethrows, so an error of any step is
  the error of the call. The writes handed to \<open>asyncR2Write\<close> are queued, not awaited.
\<close>

definition Article_layout_process :: "env \<Rightarrow> world \<Rightarrow> (error + process_result) \<times> world" where
  "Article_layout_process e w =
     (case getCachedLayoutConfig_process e w of
        (Inl err, w1) \<Rightarrow> (Inl err, w1)
      | (Inr layouts, w1) \<Rightarrow>
          (case getCachedArticles e w1 of
             (Inl err, w2) \<Rightarrow> (Inl err, w2)
           | (Inr cache, w2) \<Rightarrow>
               (let (r, heap1) = process_layouts (byHighlight cache) layouts
                                   \<lparr>combinedJsContent = [], results = [], r2Operations = []\<rparr>
                                   (all_articles cache);
                    w3 = w2\<lparr>articlesCache := Some (cache\<lparr>all_articles := heap1\<rparr>)\<rparr>
                in case r of
                     Inl err \<Rightarrow> (Inl err, w3)
                   | Inr st \<Rightarrow>
                       if combinedJsContent st \<noteq> [] \<and> r2_put_fails e then (Inl R2Error, w3)
                       else
                         (Inr \<lparr>pr_status = ''success'', details = results st,
                               files_written = length (r2Operations st)
                                 + (if combinedJsContent st \<noteq> [] then 1 else 0)\<rparr>,
                          w3\<lparr>r2_objects :=
                                (if combinedJsContent st \<noteq> []
                                 then setp (r2_objects w3) ''layout.js''
                                        (combinedJsContent st, ''application/javascript'')
                                 else r2_objects w3),
                              r2_queued := r2_queued w3 @ r2Operations st\<rparr>))))"

section \<open>The hook entry points\<close>

text \<open>
  Each entry point wraps its work in \<open>try\<close>/\<open>catch\<close>, logs what it catches and returns
  its argument.
\<close>

definition afterCreate :: "obj \<Rightarrow> env \<Rightarrow> world \<Rightarrow> (error + obj) \<times> world" where
  "afterCreate data e w =
     (let w1 = syncToArticlesGroups data e create w in
      case Article_layout_process e w1 of
        (Inl err, w2) \<Rightarrow> (Inr data, w2)
      | (Inr res, w2) \<Rightarrow> (Inr data, w2))"

definition afterUpdate :: "obj \<Rightarrow> obj \<Rightarrow> env \<Rightarrow> world \<Rightarrow> (error + obj) \<times> world" where
  "afterUpdate updatedData originalData e w =
     (let w1 = syncToArticlesGroups updatedData e update w in
      case Article_layout_process e w1 of
        (Inl err, w2) \<Rightarrow> (Inr updatedData, w2)
      | (Inr res, w2) \<Rightarrow> (Inr updatedData, w2))"

definition afterDelete :: "obj \<Rightarrow> env \<Rightarrow> world \<Rightarrow> (error + obj) \<times> world" where
  "afterDelete data e w =
     (case deleteFromArticlesGroups (getp data ''article_id'') e w of
        (Inl err, w1) \<Rightarrow> (Inr data, w1)
      | (Inr u, w1) \<Rightarrow> (Inr data, w1))"

section \<open>Concrete stores and items\<close>

text \<open>A mirror table that exists, with the given rows, and cold caches.\<close>

definition world_of :: "obj list \<Rightarrow> world" where
  "world_of rows =
     \<lparr>articles_groups = Some rows,
      hk_layoutConfigCache = None, hk_layoutCacheExpiry = 0,
      tableExistsCache = False, tableCacheExpiry = 0,
      lp_layoutConfigCache = None, lp_layoutCacheExpiry = 0,
      articlesCache = None, articlesCacheExpiry = 0,
      r2_objects = [], r2_queued = []\<rparr>"

text \<open>Stores that answer every call, at time \<open>t\<close>, with the given layout source.\<close>

definition env_of :: "layout_source \<Rightarrow> int \<Rightarrow> env" where
  "env_of src t =
     \<lparr>D1 = True, R2_layouts = src, d1_fails = (\<lambda>s. False), r2_put_fails = False, now = t\<rparr>"

text \<open>
  A mirror row of an active article in the first highlight group; only the columns
  that the examples read are listed.
\<close>

definition mirror_row :: "int \<Rightarrow> string \<Rightarrow> int \<Rightarrow> obj" where
  "mirror_row i h d =
     [(''article_id'', JNum i), (''issue_date'', JNum d), (''heading'', JStr h),
      (''highlight1_flag'', JStr ''Yes''), (''active'', JStr ''Yes'')]"

definition two_rows :: "obj list" where
  "two_rows = [mirror_row 1 ''A'' 10, mirror_row 2 ''B'' 20]"

text \<open>An active layout written to \<open><name>.js\<close>.\<close>

definition layout_of :: "string \<Rightarrow> string \<Rightarrow> string option \<Rightarrow> int \<Rightarrow> layout" where
  "layout_of name body ord lim =
     \<lparr>active = Some ''Yes'', layout_name = Some name, layout_display_name = None,
      layout_body = Some body, layout_order = ord, layout_limit = lim,
      layout_file = Some (name @ ''.js''), layout_css = None, layout_js = None,
      where_clause = None\<rparr>"

definition heading_list :: string where
  "heading_list = ''{{RepeatBegin}}{{heading}}{{RepeatEnd}}''"

text \<open>A layout whose sort field is not a column name.\<close>

definition bad_order_layout :: layout where
  "bad_order_layout = layout_of ''Latest'' heading_list (Some ''issue-date DESC'') 0"

definition env_bad_first :: env where
  "env_bad_first = env_of (Doc [bad_order_layout, layout_of ''All'' heading_list None 0]) 5"

definition env_bad_second :: env where
  "env_bad_second =
     env_of (Doc [layout_of ''All'' heading_list None 0, bad_order_layout,
                  layout_of ''Other'' heading_list None 0]) 5"

section \<open>The item cache holds active articles only\<close>

text \<open>
  Every cached article has \<open>active = 'Yes'\<close>, and every reference in a by-flag list
  points at a cached article.
\<close>

definition cache_active_only :: "articles_cache \<Rightarrow> bool" where
  "cache_active_only c =
     (list_all (\<lambda>a. getp a ''active'' = JStr ''Yes'') (all_articles c)
      \<and> list_all (\<lambda>kv. list_all (\<lambda>i. i < length (all_articles c)) (snd kv)) (byHighlight c))"

definition articles_cache_ok :: "world \<Rightarrow> bool" where
  "articles_cache_ok w =
     (case articlesCache w of None \<Rightarrow> True | Some c \<Rightarrow> cache_active_only c)"

text \<open>A table with an active and an inactive row, both flagged for the first highlight group.\<close>

definition mixed_rows :: "obj list" where
  "mixed_rows =
     [mirror_row 1 ''A'' 10,
      [(''article_id'', JNum 2), (''issue_date'', JNum 20), (''heading'', JStr ''B''),
       (''highlight1_flag'', JStr ''Yes''), (''active'', JStr ''No'')]]"

text \<open>Every reference in the by-flag lists is below \<open>n\<close>.\<close>

definition refs_below :: "nat \<Rightarrow> (string \<times> nat list) list \<Rightarrow> bool" where
  "refs_below n m = (\<forall>kv \<in> set m. \<forall>j \<in> set (snd kv). j < n)"

definition active_heap :: "obj list \<Rightarrow> bool" where
  "active_heap heap = (\<forall>a \<in> set heap. getp a ''active'' = JStr ''Yes'')"

section \<open>What the flag loops compute\<close>

text \<open>
  The flags of the item that need a limit check, as the two loops find them, and the
  entry each of them adds to \<open>flagsToCheck\<close>.
\<close>

definition originalFlagValue :: "obj \<Rightarrow> string \<Rightarrow> jsval" where
  "originalFlagValue data flag = js_or (getp data flag) (JStr ''No'')"

definition highlight_needs_check :: "layout_data \<Rightarrow> obj \<Rightarrow> nat \<Rightarrow> bool" where
  "highlight_needs_check ld data i =
     (originalFlagValue data (highlight_flag i) = JStr ''Yes''
      \<and> (case map_of (layoutConfigMap ld) (highlight_layout i) of
           None \<Rightarrow> False
         | Some l \<Rightarrow> layout_limit l > 0))"

definition highlight_check :: "layout_data \<Rightarrow> nat \<Rightarrow> flag_check" where
  "highlight_check ld i =
     \<lparr>flagName = highlight_flag i,
      fc_layout = (case map_of (layoutConfigMap ld) (highlight_layout i) of Some l \<Rightarrow> l),
      fc_type = highlight\<rparr>"

definition group_layout :: "layout_data \<Rightarrow> nat \<Rightarrow> layout option" where
  "group_layout ld i =
     find (\<lambda>l. layout_name l = Some (articlegroup_layout i)) (activeArticleGroups ld)"

definition group_needs_check :: "layout_data \<Rightarrow> obj \<Rightarrow> nat \<Rightarrow> bool" where
  "group_needs_check ld data i =
     (case group_layout ld i of
        None \<Rightarrow> False
      | Some l \<Rightarrow> shouldInclude data l \<and> layout_limit l > 0)"

definition group_check :: "layout_data \<Rightarrow> nat \<Rightarrow> flag_check" where
  "group_check ld i =
     \<lparr>flagName = articlegroup_flag i,
      fc_layout = (case group_layout ld i of Some l \<Rightarrow> l),
      fc_type = articlegroup\<rparr>"

text \<open>The value a group flag gets when it needs no limit check.\<close>

definition group_unchecked_value :: "layout_data \<Rightarrow> obj \<Rightarrow> nat \<Rightarrow> jsval" where
  "group_unchecked_value ld data i =
     (case group_layout ld i of
        None \<Rightarrow> originalFlagValue data (articlegroup_flag i)
      | Some l \<Rightarrow> if shouldInclude data l then JStr ''Yes'' else JStr ''No'')"

text \<open>
  The answer of the limit check for one flag: the batch count when that statement
  succeeds, else the single count, else "allow".
\<close>

definition within_limit :: "env \<Rightarrow> world \<Rightarrow> string \<Rightarrow> int \<Rightarrow> jsval \<Rightarrow> bool" where
  "within_limit e w flag limit articleId =
     (case d1_rows e BatchCount w of
        Some rows \<Rightarrow> count_others rows flag articleId < limit
      | None \<Rightarrow>
          (case d1_rows e (SingleCount flag) w of
             Some rows \<Rightarrow> count_others rows flag articleId < limit
           | None \<Rightarrow> True))"

definition yes_no :: "bool \<Rightarrow> jsval" where
  "yes_no b = (if b then JStr ''Yes'' else JStr ''No'')"

section \<open>Reading the mirror table\<close>

definition mirror_rows :: "world \<Rightarrow> obj list" where
  "mirror_rows w = (case articles_groups w of None \<Rightarrow> [] | Some rows \<Rightarrow> rows)"

definition column :: "string \<Rightarrow> obj list \<Rightarrow> jsval list" where
  "column k rows = map (\<lambda>r. getp r k) rows"

text \<open>The rows of the other articles.\<close>

definition other_rows :: "jsval \<Rightarrow> obj list \<Rightarrow> obj list" where
  "other_rows articleId rows = filter (\<lambda>r. \<not> sql_eq (getp r ''article_id'') articleId) rows"

text \<open>The resolved value of a checked flag, read from the object its type selects.\<close>

definition resolved_flag :: "obj \<times> obj \<Rightarrow> flag_check \<Rightarrow> jsval" where
  "resolved_flag rf fc =
     (if fc_type fc = highlight then getp (fst rf) (flagName fc) else getp (snd rf) (flagName fc))"

section \<open>More concrete items and layouts\<close>

definition item_group_only :: obj where
  "item_group_only =
     [(''article_id'', JNum 7), (''heading'', JStr ''T''), (''articlegroup1_flag'', JStr ''Yes'')]"

definition group_layout_news :: layout where
  "group_layout_news =
     (layout_of ''ArticleGroup1'' heading_list None 0)\<lparr>where_clause := Some ''sub_menu_id=301''\<rparr>"

definition item_news :: obj where
  "item_news = [(''article_id'', JNum 8), (''heading'', JStr ''N''), (''sub_menu_id'', JNum 301)]"

definition item_sport :: obj where
  "item_sport = [(''article_id'', JNum 9), (''heading'', JStr ''S''), (''sub_menu_id'', JNum 302),
                 (''articlegroup1_flag'', JStr ''Yes'')]"

definition highlight1_limit_one :: layout where
  "highlight1_limit_one = layout_of ''Highlight1'' heading_list None 1"

definition item_h1 :: obj where
  "item_h1 = [(''article_id'', JNum 2), (''heading'', JStr ''B''), (''highlight1_flag'', JStr ''Yes'')]"

text \<open>A store whose count statements throw, the batch one and the single ones.\<close>

definition count_queries_fail :: "site \<Rightarrow> bool" where
  "count_queries_fail s = (case s of BatchCount \<Rightarrow> True | SingleCount f \<Rightarrow> True | _ \<Rightarrow> False)"

section \<open>The mirror table invariant\<close>

text \<open>
  The flag columns of a mirror row, the invariant that every mirror row has a flag
  column that is \<open>Yes\<close>, the rows of one article, and the flags that
  \<open>syncToArticlesGroups\<close> resolves before it writes.
\<close>

definition flag_columns :: "string list" where
  "flag_columns = map highlight_flag flag_indices @ map articlegroup_flag flag_indices"

definition row_has_yes :: "obj \<Rightarrow> bool" where
  "row_has_yes r = list_ex (\<lambda>k. getp r k = JStr ''Yes'') flag_columns"

definition mirror_invariant :: "world \<Rightarrow> bool" where
  "mirror_invariant w = list_all row_has_yes (mirror_rows w)"

definition own_rows :: "jsval \<Rightarrow> obj list \<Rightarrow> obj list" where
  "own_rows articleId rows = filter (\<lambda>r. sql_eq (getp r ''article_id'') articleId) rows"

definition sync_flags :: "obj \<Rightarrow> env \<Rightarrow> world \<Rightarrow> obj \<times> obj" where
  "sync_flags data e w =
     (let (layoutData, w1) = getCachedLayoutConfig_hooks e w;
          w2 = ensureTableExists e w1
      in resolve_flags e w2 layoutData data (getp data ''article_id''))"

definition insert_head_columns :: "string list" where
  "insert_head_columns =
     [''article_id'', ''issue_date'', ''starting_date'', ''ending_date'', ''sub_menu_id'',
      ''menu'', ''heading'', ''body'', ''picture_location'', ''picture2_location'', ''by_line'']"

definition item_plain :: obj where
  "item_plain = [(''article_id'', JNum 1), (''heading'', JStr ''A'')]"

section \<open>Classifying twice\<close>

text \<open>
  The layout registry that the store holds, a cache that is empty or holds that
  registry, rows that agree in every column except \<open>last_update_date\<close>, rows
  that carry the resolved flags, and the rows that an update leaves in an existing
  table, by the statements that throw.
\<close>

definition registry :: "env \<Rightarrow> layout_data" where
  "registry e = (case R2_layouts e of Doc layoutConfig \<Rightarrow> build_layout_data layoutConfig
                 | _ \<Rightarrow> empty_layout_data)"

definition layout_cache_current :: "env \<Rightarrow> world \<Rightarrow> bool" where
  "layout_cache_current e w =
     (case hk_layoutConfigCache w of None \<Rightarrow> True | Some cached \<Rightarrow> cached = registry e)"

definition same_but_timestamp :: "obj \<Rightarrow> obj \<Rightarrow> bool" where
  "same_but_timestamp r' r = (\<forall>k. k \<noteq> ''last_update_date'' \<longrightarrow> getp r' k = getp r k)"

definition flags_written :: "obj \<Rightarrow> obj \<Rightarrow> obj \<Rightarrow> bool" where
  "flags_written hf gf r =
     (list_all (\<lambda>k. getp r k = getp hf k) (map fst hf)
      \<and> list_all (\<lambda>k. getp r k = getp gf k) (map fst gf))"

definition has_own_row :: "jsval \<Rightarrow> obj list \<Rightarrow> bool" where
  "has_own_row articleId rows = list_ex (\<lambda>r. sql_eq (getp r ''article_id'') articleId) rows"

definition update_outcome :: "obj \<Rightarrow> env \<Rightarrow> jsval \<Rightarrow> obj \<Rightarrow> obj \<Rightarrow> obj list \<Rightarrow> obj list" where
  "update_outcome data e articleId hf gf rows =
     (if \<not> (has_any_yes hf \<or> has_any_yes gf)
      then (if d1_fails e DeleteRow then rows else delete_rows articleId rows)
      else if d1_fails e SelectExisting then rows
      else if has_own_row articleId rows
      then (if d1_fails e UpdateRow then rows else update_rows articleId hf gf (now e) rows)
      else (if d1_fails e InsertRow then rows
            else rows @ [insert_values data articleId hf gf (now e)]))"

section \<open>The limit of the repeat loop\<close>







section \<open>The parts of a rendered layout\<close>

text \<open>The pattern \<open>{{key}}\<close> that stands for a field.\<close>

definition placeholder :: "string \<Rightarrow> string" where
  "placeholder key = ''{{'' @ key @ ''}}''"

text \<open>The replacement text for a field: \<open>value || ''\<close> as a string.\<close>

definition field_text :: "jsval \<Rightarrow> string" where
  "field_text v = js_to_string (js_or v (JStr ''''))"

text \<open>The \<open>Object.entries(art).forEach\<close> step of the loop body.\<close>

definition substitute_fields :: "obj \<Rightarrow> string \<Rightarrow> string" where
  "substitute_fields art rendered = foldl (\<lambda>r (key, val). replace_placeholder key val r) rendered art"

section \<open>Conditionals written out\<close>








section \<open>Numbers that a double holds apart\<close>






section \<open>Example blocks\<close>











text \<open>An article whose heading has two dollar signs, and a layout that lists the headings.\<close>

definition dollar_row :: obj where
  "dollar_row = mirror_row 1 ''Save $$ today'' 10"

definition heading_layout :: layout where
  "heading_layout = layout_of ''Highlight1'' heading_list None 0"

section \<open>The hooks never throw\<close>

text \<open>
  C1. Whatever the content item and whatever the stores do (layout source missing or
  unreadable, any D1 statement failing, the artifact put failing), each of
  \<open>afterCreate\<close>, \<open>afterUpdate\<close> and \<open>afterDelete\<close> returns normally, and what it
  returns is the data it was given.
\<close>

theorem hooks_return_their_input:
  "fst (afterCreate data e w) = Inr data
   \<and> fst (afterUpdate updatedData originalData e w) = Inr updatedData
   \<and> fst (afterDelete data e w) = Inr data"
  by (simp add: afterCreate_def afterUpdate_def afterDelete_def Let_def
           split: prod.splits sum.splits)

section \<open>A missing layout source\<close>

lemma ensureTableExists_hk_cache:
  "ensureTableExists e (w\<lparr>hk_layoutConfigCache := c, hk_layoutCacheExpiry := x\<rparr>)
     = (ensureTableExists e w)\<lparr>hk_layoutConfigCache := c, hk_layoutCacheExpiry := x\<rparr>"
  by (simp add: ensureTableExists_def split: option.splits)

lemma d1_rows_hk_cache:
  "d1_rows e s (w\<lparr>hk_layoutConfigCache := c, hk_layoutCacheExpiry := x\<rparr>) = d1_rows e s w"
  by (simp add: d1_rows_def)

lemma build_layout_data_Nil: "build_layout_data [] = empty_layout_data"
  by (simp add: build_layout_data_def empty_layout_data_def name_index_def)

lemma checkLayoutLimit_hk_cache:
  "checkLayoutLimit e (w\<lparr>hk_layoutConfigCache := c, hk_layoutCacheExpiry := x\<rparr>) f l i
     = checkLayoutLimit e w f l i"
  by (simp add: checkLayoutLimit_def d1_rows_hk_cache)

lemma checkMultipleLayoutLimits_hk_cache:
  "checkMultipleLayoutLimits e (w\<lparr>hk_layoutConfigCache := c, hk_layoutCacheExpiry := x\<rparr>) fcs i
     = checkMultipleLayoutLimits e w fcs i"
  by (simp add: checkMultipleLayoutLimits_def d1_rows_hk_cache checkLayoutLimit_hk_cache
           split: option.splits)

lemma resolve_flags_hk_cache:
  "resolve_flags e (w\<lparr>hk_layoutConfigCache := c, hk_layoutCacheExpiry := x\<rparr>) ld data i
     = resolve_flags e w ld data i"
  by (simp add: resolve_flags_def checkMultipleLayoutLimits_hk_cache split: prod.splits)

lemma checkLayoutLimit_source:
  "checkLayoutLimit (e\<lparr>R2_layouts := src\<rparr>) w f l i = checkLayoutLimit e w f l i"
  by (simp add: checkLayoutLimit_def d1_rows_def)

lemma checkMultipleLayoutLimits_source:
  "checkMultipleLayoutLimits (e\<lparr>R2_layouts := src\<rparr>) w fcs i = checkMultipleLayoutLimits e w fcs i"
  by (simp add: checkMultipleLayoutLimits_def checkLayoutLimit_source d1_rows_def
           split: option.splits)

lemma resolve_flags_source:
  "resolve_flags (e\<lparr>R2_layouts := src\<rparr>) w ld data i = resolve_flags e w ld data i"
  by (simp add: resolve_flags_def checkMultipleLayoutLimits_source split: prod.splits)

lemma ensureTableExists_source:
  "ensureTableExists (e\<lparr>R2_layouts := src\<rparr>) w = ensureTableExists e w"
  by (simp add: ensureTableExists_def split: option.splits)

lemma d1_run_hk_cache:
  "d1_run e s f (w\<lparr>hk_layoutConfigCache := c, hk_layoutCacheExpiry := x\<rparr>)
     = (fst (d1_run e s f w),
        (snd (d1_run e s f w))\<lparr>hk_layoutConfigCache := c, hk_layoutCacheExpiry := x\<rparr>)"
  by (simp add: d1_run_def d1_rows_def split: option.splits)

lemma d1_run_source:
  "d1_run (e\<lparr>R2_layouts := src\<rparr>) s f w = d1_run e s f w"
  by (simp add: d1_run_def d1_rows_def)

lemma hooks_loader_missing:
  assumes "R2_layouts e = NotFound"
      and "now e < hk_layoutCacheExpiry w \<longrightarrow> hk_layoutConfigCache w = None"
  shows "getCachedLayoutConfig_hooks e w = (empty_layout_data, w)"
  using assms by (auto simp: getCachedLayoutConfig_hooks_def)

lemma sync_try_missing:
  assumes "R2_layouts e = NotFound"
      and "now e < hk_layoutCacheExpiry w \<longrightarrow> hk_layoutConfigCache w = None"
  shows "articles_groups (snd (sync_try data e op i w))
       = articles_groups (snd (sync_try data (e\<lparr>R2_layouts := Doc []\<rparr>) op i w))"
proof -
  have a: "getCachedLayoutConfig_hooks e w = (empty_layout_data, w)"
    using assms by (rule hooks_loader_missing)
  have b: "getCachedLayoutConfig_hooks (e\<lparr>R2_layouts := Doc []\<rparr>) w
     = (empty_layout_data,
        w\<lparr>hk_layoutConfigCache := Some empty_layout_data,
          hk_layoutCacheExpiry := now e + LAYOUT_CACHE_TTL\<rparr>)"
    using assms by (auto simp: getCachedLayoutConfig_hooks_def build_layout_data_Nil)
  show ?thesis
    unfolding sync_try_def a b
    by (simp add: Let_def ensureTableExists_hk_cache ensureTableExists_source
          resolve_flags_hk_cache resolve_flags_source d1_run_hk_cache d1_run_source
          d1_rows_hk_cache d1_rows_def
        split: prod.splits operation.splits option.splits)
qed

lemma process_loader_missing:
  assumes "R2_layouts e = NotFound"
      and "now e < lp_layoutCacheExpiry w \<longrightarrow> lp_layoutConfigCache w = None"
  shows "getCachedLayoutConfig_process e w = (Inl LayoutsNotFound, w)"
  using assms by (auto simp: getCachedLayoutConfig_process_def)

text \<open>
  C9 (as amended). When the layout source is missing and the module's layout cache
  cannot serve the call (it is empty or has expired), the loader of ArticleHooks.js
  returns the empty registry and classification leaves the mirror table exactly as it
  would with an empty layout document; the loader of Article_layout_process.js throws
  "sys-system-layouts.json not found", and \<open>Article_layout_process\<close> rethrows it without
  touching anything.
\<close>

theorem missing_layout_source:
  assumes "R2_layouts e = NotFound"
      and "now e < hk_layoutCacheExpiry w \<longrightarrow> hk_layoutConfigCache w = None"
      and "now e < lp_layoutCacheExpiry w \<longrightarrow> lp_layoutConfigCache w = None"
  shows "getCachedLayoutConfig_hooks e w = (empty_layout_data, w)
       \<and> articles_groups (syncToArticlesGroups data e op w)
           = articles_groups (syncToArticlesGroups data (e\<lparr>R2_layouts := Doc []\<rparr>) op w)
       \<and> getCachedLayoutConfig_process e w = (Inl LayoutsNotFound, w)
       \<and> Article_layout_process e w = (Inl LayoutsNotFound, w)"
proof -
  have 1: "getCachedLayoutConfig_hooks e w = (empty_layout_data, w)"
    using assms(1,2) by (rule hooks_loader_missing)
  have 2: "articles_groups (syncToArticlesGroups data e op w)
           = articles_groups (syncToArticlesGroups data (e\<lparr>R2_layouts := Doc []\<rparr>) op w)"
    using sync_try_missing [OF assms(1,2)] by (simp add: syncToArticlesGroups_def Let_def)
  have 3: "getCachedLayoutConfig_process e w = (Inl LayoutsNotFound, w)"
    using assms(1,3) by (rule process_loader_missing)
  have 4: "Article_layout_process e w = (Inl LayoutsNotFound, w)"
    by (simp add: Article_layout_process_def 3)
  from 1 2 3 4 show ?thesis by simp
qed

theorem missing_layout_source_witness:
  "getCachedLayoutConfig_hooks (env_of NotFound 5) (world_of []) = (empty_layout_data, world_of [])
   \<and> articles_groups (syncToArticlesGroups [(''article_id'', JNum 1)] (env_of NotFound 5) create (world_of []))
       = articles_groups (syncToArticlesGroups [(''article_id'', JNum 1)]
           ((env_of NotFound 5)\<lparr>R2_layouts := Doc []\<rparr>) create (world_of []))
   \<and> getCachedLayoutConfig_process (env_of NotFound 5) (world_of [])
       = (Inl LayoutsNotFound, world_of [])
   \<and> Article_layout_process (env_of NotFound 5) (world_of []) = (Inl LayoutsNotFound, world_of [])"
  using missing_layout_source [of "env_of NotFound 5" "world_of []" "[(''article_id'', JNum 1)]" create]
  by (simp add: env_of_def world_of_def)

text \<open>
  The claim as stated fails for rendering: with the source missing and cold caches the
  loader of the layout processor does not return an empty registry, and the render
  entry point does not complete.
\<close>

theorem missing_layout_source_render_counterexample:
  "fst (getCachedLayoutConfig_process (env_of NotFound 5) (world_of [])) = Inl LayoutsNotFound
   \<and> fst (Article_layout_process (env_of NotFound 5) (world_of [])) = Inl LayoutsNotFound"
  by (simp add: Article_layout_process_def getCachedLayoutConfig_process_def env_of_def
        world_of_def)

section \<open>An error in one layout\<close>

lemma process_layouts_append:
  "process_layouts byH (ls1 @ ls2) st heap =
     (case process_layouts byH ls1 st heap of
        (Inl err, h) \<Rightarrow> (Inl err, h)
      | (Inr st1, h) \<Rightarrow> process_layouts byH ls2 st1 h)"
  by (induction ls1 arbitrary: st heap) (auto split: prod.splits sum.splits)

lemma loader_keeps_sink:
  "getCachedLayoutConfig_process e w = (r, w1) \<Longrightarrow>
     r2_objects w1 = r2_objects w \<and> r2_queued w1 = r2_queued w"
  by (auto simp: getCachedLayoutConfig_process_def Let_def split: option.splits layout_source.splits if_splits)

lemma articles_loader_keeps_sink:
  "getCachedArticles e w = (r, w1) \<Longrightarrow>
     r2_objects w1 = r2_objects w \<and> r2_queued w1 = r2_queued w"
  by (auto simp: getCachedArticles_def Let_def split: option.splits sum.splits if_splits)

text \<open>
  C2 (as amended). An error thrown while one layout is processed (a sort field that is
  not a column name, a layout without a name) is not caught for that layout: it ends
  the run. \<open>Article_layout_process\<close> rethrows it, returns no result for any layout, also
  not for the layouts rendered before, and writes nothing to the artifact sink.
\<close>

theorem layout_error_aborts_run:
  assumes "getCachedLayoutConfig_process e w = (Inr (ls1 @ l # ls2), w1)"
      and "getCachedArticles e w1 = (Inr cache, w2)"
      and "process_layouts (byHighlight cache) ls1
             \<lparr>combinedJsContent = [], results = [], r2Operations = []\<rparr> (all_articles cache)
           = (Inr st, heap)"
      and "process_layout (byHighlight cache) l st heap = (Inl err, heap1)"
  shows "fst (Article_layout_process e w) = Inl err
       \<and> r2_objects (snd (Article_layout_process e w)) = r2_objects w
       \<and> r2_queued (snd (Article_layout_process e w)) = r2_queued w"
proof -
  have run: "process_layouts (byHighlight cache) (ls1 @ l # ls2)
               \<lparr>combinedJsContent = [], results = [], r2Operations = []\<rparr> (all_articles cache)
             = (Inl err, heap1)"
    using assms(3,4) by (simp add: process_layouts_append)
  have sink: "r2_objects w2 = r2_objects w \<and> r2_queued w2 = r2_queued w"
    using loader_keeps_sink [OF assms(1)] articles_loader_keeps_sink [OF assms(2)] by simp
  show ?thesis
    using sink by (simp add: Article_layout_process_def assms(1,2) run)
qed

theorem layout_error_aborts_run_witness:
  "fst (Article_layout_process env_bad_second (world_of two_rows)) = Inl (InvalidOrderField ''issue-date'')
   \<and> r2_objects (snd (Article_layout_process env_bad_second (world_of two_rows))) = []
   \<and> r2_queued (snd (Article_layout_process env_bad_second (world_of two_rows))) = []"
proof -
  let ?W = "world_of two_rows"
  let ?X1 = "getCachedLayoutConfig_process env_bad_second ?W"
  let ?X2 = "getCachedArticles env_bad_second (snd ?X1)"
  let ?C = "\<lparr>all_articles = [mirror_row 2 ''B'' 20, mirror_row 1 ''A'' 10],
            byHighlight = [(''highlight1_flag'', [0, 1])]\<rparr>"
  let ?X3 = "process_layouts (byHighlight ?C) [layout_of ''All'' heading_list None 0]
               \<lparr>combinedJsContent = [], results = [], r2Operations = []\<rparr> (all_articles ?C)"
  let ?X4 = "process_layout (byHighlight ?C) bad_order_layout (projr (fst ?X3)) (snd ?X3)"
  have "fst ?X1 = Inr ([layout_of ''All'' heading_list None 0] @ bad_order_layout
                        # [layout_of ''Other'' heading_list None 0])"
    by code_simp
  then have h1: "?X1 = (Inr ([layout_of ''All'' heading_list None 0] @ bad_order_layout
                        # [layout_of ''Other'' heading_list None 0]), snd ?X1)"
    by (metis prod.collapse)
  have "fst ?X2 = Inr ?C" by code_simp
  then have h2: "?X2 = (Inr ?C, snd ?X2)" by (metis prod.collapse)
  have "\<not> isl (fst ?X3)" by code_simp
  then have h3: "?X3 = (Inr (projr (fst ?X3)), snd ?X3)"
    by (metis prod.collapse sum.collapse(2))
  have "fst ?X4 = Inl (InvalidOrderField ''issue-date'')" by code_simp
  then have h4: "?X4 = (Inl (InvalidOrderField ''issue-date''), snd ?X4)"
    by (metis prod.collapse)
  from layout_error_aborts_run [OF h1 h2 h3 h4] show ?thesis
    by (simp add: world_of_def)
qed

text \<open>
  The claim as stated fails: the first of two layouts has an invalid sort field, two
  articles are cached, and the run throws instead of returning an error result for the
  first layout and a rendering of the second.
\<close>

theorem layout_error_counterexample:
  "fst (Article_layout_process env_bad_first (world_of two_rows))
     = Inl (InvalidOrderField ''issue-date'')"
  by code_simp

lemma process_layout_status:
  assumes "process_layout byH l st heap = (Inr st1, heap1)"
      and "\<forall>r \<in> set (results st). status r = ''added'' \<or> status r = ''skipped''"
  shows "\<forall>r \<in> set (results st1). status r = ''added'' \<or> status r = ''skipped''"
proof (cases "case layout_body l of None \<Rightarrow> True | Some b \<Rightarrow> b = []")
  case True
  then show ?thesis using assms by (simp add: process_layout_def)
next
  case body: False
  show ?thesis
  proof (cases "name_starts l ''menu''")
    case True
    then show ?thesis using assms body by (auto simp: process_layout_def)
  next
    case False
    then show ?thesis using assms body
      by (auto simp: process_layout_def Let_def split: sum.splits prod.splits option.splits)
  qed
qed

lemma process_layouts_status:
  assumes "process_layouts byH ls st heap = (Inr st1, heap1)"
      and "\<forall>r \<in> set (results st). status r = ''added'' \<or> status r = ''skipped''"
  shows "\<forall>r \<in> set (results st1). status r = ''added'' \<or> status r = ''skipped''"
  using assms
proof (induction ls arbitrary: st heap)
  case Nil
  then show ?case by simp
next
  case (Cons l ls)
  from Cons.prems(1) obtain st2 heap2
    where a: "process_layout byH l st heap = (Inr st2, heap2)"
      and b: "process_layouts byH ls st2 heap2 = (Inr st1, heap1)"
    by (auto split: prod.splits sum.splits)
  from process_layout_status [OF a Cons.prems(2)]
  have "\<forall>r \<in> set (results st2). status r = ''added'' \<or> status r = ''skipped''" .
  from Cons.IH [OF b this] show ?case .
qed

lemma render_results_added_or_skipped:
  assumes "Article_layout_process e w = (Inr res, w')"
  shows "\<forall>r \<in> set (details res). status r = ''added'' \<or> status r = ''skipped''"
proof -
  from assms obtain layouts w1
    where l: "getCachedLayoutConfig_process e w = (Inr layouts, w1)"
    by (auto simp: Article_layout_process_def split: prod.splits sum.splits)
  from assms l obtain cache w2
    where c: "getCachedArticles e w1 = (Inr cache, w2)"
    by (auto simp: Article_layout_process_def split: prod.splits sum.splits)
  obtain r heap1
    where p: "process_layouts (byHighlight cache) layouts
                \<lparr>combinedJsContent = [], results = [], r2Operations = []\<rparr>
                (all_articles cache) = (r, heap1)"
    by (cases "process_layouts (byHighlight cache) layouts
                \<lparr>combinedJsContent = [], results = [], r2Operations = []\<rparr>
                (all_articles cache)") blast
  from assms l c p obtain st where st: "r = Inr st" "details res = results st"
    by (auto simp: Article_layout_process_def Let_def split: sum.splits if_split_asm)
  from process_layouts_status [OF p [unfolded st(1)]] st(2) show ?thesis by simp
qed

section \<open>Only active rows are rendered\<close>

lemma getp_setp: "getp (setp ob k v) k' = (if k' = k then v else getp ob k')"
  by (induction ob) (auto simp: getp_def)

lemma set_setp: "set (setp m k v) \<subseteq> insert (k, v) (set m)"
  by (induction m) (auto split: if_splits)

lemma set_insert_desc: "set (insert_desc r xs) = insert r (set xs)"
  by (induction xs) auto

lemma set_foldl_insert_desc: "set (foldl (\<lambda>acc r. insert_desc r acc) acc rows) = set acc \<union> set rows"
  by (induction rows arbitrary: acc) (auto simp: set_insert_desc)

lemma set_select_active:
  "set (select_active rows) = {r \<in> set rows. sql_eq (getp r ''active'') (JStr ''Yes'')}"
  by (auto simp: select_active_def order_by_issue_date_desc_def set_foldl_insert_desc)

lemma refs_below_setp:
  assumes "refs_below n m" and "\<forall>j \<in> set xs. j < n"
  shows "refs_below n (setp m k xs)"
  using assms set_setp [of m k xs] unfolding refs_below_def by fastforce

lemma refs_below_lookup:
  assumes "refs_below n m" and "map_of m k = Some xs"
  shows "\<forall>j \<in> set xs. j < n"
  using assms map_of_SomeD [of m k xs] unfolding refs_below_def by fastforce

lemma group_entries_refs:
  assumes "group_entries i art m = Inr m'" and "refs_below n m" and "i < n"
  shows "refs_below n m'"
  using assms
proof (induction i art m rule: group_entries.induct)
  case (1 i m)
  then show ?case by simp
next
  case (2 i key val kvs m)
  show ?case
  proof (cases "endsWith key ''_flag'' \<and> truthy val")
    case False
    with 2 show ?thesis by auto
  next
    case True
    with "2.prems"(1) obtain s where s: "val = JStr s" by (cases val) auto
    show ?thesis
    proof (cases "toLowerCase s = ''yes''")
      case False
      with 2 True s show ?thesis by auto
    next
      case yes: True
      let ?old = "case map_of m key of None \<Rightarrow> [] | Some l \<Rightarrow> l"
      have "\<forall>j \<in> set ?old. j < n"
      proof (cases "map_of m key")
        case None
        then show ?thesis by simp
      next
        case (Some xs)
        with refs_below_lookup [OF "2.prems"(2) Some] show ?thesis by simp
      qed
      then have "\<forall>j \<in> set (?old @ [i]). j < n"
        using "2.prems"(3) by simp
      then have "refs_below n (setp m key (?old @ [i]))"
        using "2.prems"(2) by (rule refs_below_setp [rotated])
      with 2 True s yes show ?thesis by auto
    qed
  qed
qed

lemma refs_below_mono: "refs_below n m \<Longrightarrow> n \<le> n' \<Longrightarrow> refs_below n' m"
  unfolding refs_below_def by fastforce

lemma group_articles_refs:
  assumes "group_articles i arts m = Inr m'" and "refs_below (i + length arts) m"
  shows "refs_below (i + length arts) m'"
  using assms
proof (induction i arts m rule: group_articles.induct)
  case (1 i m)
  then show ?case by simp
next
  case (2 i article rest m)
  from "2.prems"(1) obtain m1 where
    a: "group_entries i article m = Inr m1" and b: "group_articles (Suc i) rest m1 = Inr m'"
    by (auto split: sum.splits)
  have "refs_below (i + length (article # rest)) m1"
    using group_entries_refs [OF a "2.prems"(2)] by simp
  then have "refs_below (Suc i + length rest) m1" by simp
  from "2.IH" [OF a b this] show ?case by simp
qed

lemma cache_active_only_iff:
  "cache_active_only c \<longleftrightarrow>
     (\<forall>a \<in> set (all_articles c). getp a ''active'' = JStr ''Yes'')
     \<and> refs_below (length (all_articles c)) (byHighlight c)"
  by (auto simp: cache_active_only_def refs_below_def list_all_iff)

lemma getCachedArticles_ok:
  assumes "articles_cache_ok w" and "getCachedArticles e w = (Inr c, w')"
  shows "cache_active_only c \<and> articles_cache_ok w' \<and> articlesCache w' = Some c"
proof (cases "if now e < articlesCacheExpiry w then articlesCache w else None")
  case (Some cached)
  with assms show ?thesis
    by (auto simp: getCachedArticles_def articles_cache_ok_def split: if_splits)
next
  case None
  with assms(2) obtain rows grouped where
    rows: "d1_rows e SelectActive w = Some rows" and
    grp: "group_articles 0 (select_active rows) [] = Inr grouped" and
    c: "c = \<lparr>all_articles = select_active rows, byHighlight = grouped\<rparr>" and
    w': "w' = w\<lparr>articlesCache := Some c, articlesCacheExpiry := now e + ARTICLES_CACHE_TTL\<rparr>"
    by (auto simp: getCachedArticles_def Let_def split: if_splits option.splits sum.splits)
  have "refs_below (0 + length (select_active rows)) grouped"
    by (rule group_articles_refs [OF grp]) (simp add: refs_below_def)
  moreover have "\<forall>a \<in> set (select_active rows). getp a ''active'' = JStr ''Yes''"
    by (simp add: set_select_active sql_eq_def)
  ultimately have "cache_active_only c"
    by (simp add: cache_active_only_iff c)
  then show ?thesis by (simp add: w' articles_cache_ok_def)
qed


lemma active_heap_update:
  assumes "active_heap heap"
  shows "active_heap (heap[a := setp (deref heap a) ''Counter'' v])"
proof (cases "a < length heap")
  case True
  then have "getp (heap ! a) ''active'' = JStr ''Yes''"
    using assms by (simp add: active_heap_def)
  then have "getp (setp (deref heap a) ''Counter'' v) ''active'' = JStr ''Yes''"
    using True by (simp add: getp_setp deref_def)
  then show ?thesis
    using assms set_update_subset_insert [of heap a "setp (deref heap a) ''Counter'' v"]
    unfolding active_heap_def by blast
next
  case False
  then show ?thesis using assms by (simp add: list_update_beyond)
qed

lemma repeat_loop_heap:
  assumes "repeat_loop block heap arts idx lim = (out, heap')"
  shows "length heap' = length heap \<and> (active_heap heap \<longrightarrow> active_heap heap')"
  using assms
proof (induction arts arbitrary: heap idx lim out heap')
  case Nil
  then show ?case by simp
next
  case (Cons a arts)
  let ?art = "setp (deref heap a) ''Counter'' (JNum (int (Suc idx)))"
  let ?heap1 = "heap[a := ?art]"
  obtain rendered lim1 where r: "render_item block ?art lim = (rendered, lim1)"
    by (cases "render_item block ?art lim") blast
  show ?case
  proof (cases "num_le lim1 (Dec (int (Suc idx)) 0)")
    case True
    with Cons.prems r have "heap' = ?heap1" by (simp add: Let_def)
    then show ?thesis using active_heap_update by simp
  next
    case False
    obtain more heap2 where m: "repeat_loop block ?heap1 arts (Suc idx) lim1 = (more, heap2)"
      by (cases "repeat_loop block ?heap1 arts (Suc idx) lim1") blast
    with Cons.prems r False have "heap' = heap2" by (simp add: Let_def)
    with Cons.IH [OF m] show ?thesis using active_heap_update by simp
  qed
qed

lemma render_template_heap:
  assumes "render_template l heap arts = (html, heap')"
  shows "length heap' = length heap \<and> (active_heap heap \<longrightarrow> active_heap heap')"
  using assms
  by (auto simp: render_template_def Let_def split: option.splits prod.splits
           dest: repeat_loop_heap)

lemma process_layout_heap:
  assumes "process_layout byH l st heap = (r, heap')"
  shows "length heap' = length heap \<and> (active_heap heap \<longrightarrow> active_heap heap')"
proof (cases "case layout_body l of None \<Rightarrow> True | Some b \<Rightarrow> b = []")
  case True
  then show ?thesis using assms by (auto simp: process_layout_def)
next
  case body: False
  show ?thesis
  proof (cases "name_starts l ''menu''")
    case True
    with body assms show ?thesis by (auto simp: process_layout_def)
  next
    case False
    with body have False: "\<not> ((case layout_body l of None \<Rightarrow> True | Some b \<Rightarrow> b = [])
                              \<or> name_starts l ''menu'')" by simp
    show ?thesis
  proof (cases "sort_articles l heap (select_articles byH l heap)")
    case (Inl err)
    with False assms show ?thesis by (auto simp: process_layout_def)
  next
    case (Inr articles)
    obtain html0 heap1 where t: "render_template l heap articles = (html0, heap1)"
      by (cases "render_template l heap articles") blast
    with False assms Inr have "heap' = heap1"
      by (auto simp: process_layout_def Let_def split: option.splits)
    with render_template_heap [OF t] show ?thesis by simp
  qed
  qed
qed

lemma process_layouts_heap:
  assumes "process_layouts byH ls st heap = (r, heap')"
  shows "length heap' = length heap \<and> (active_heap heap \<longrightarrow> active_heap heap')"
  using assms
proof (induction ls arbitrary: st heap)
  case Nil
  then show ?case by simp
next
  case (Cons l ls)
  obtain r1 heap1 where p: "process_layout byH l st heap = (r1, heap1)"
    by (cases "process_layout byH l st heap") blast
  show ?case
  proof (cases r1)
    case (Inl err)
    with Cons.prems p have "heap' = heap1" by simp
    with process_layout_heap [OF p] show ?thesis by simp
  next
    case (Inr st1)
    with Cons.prems p have "process_layouts byH ls st1 heap1 = (r, heap')" by simp
    from Cons.IH [OF this] process_layout_heap [OF p] show ?thesis by simp
  qed
qed

lemma loader_keeps_articles_cache:
  "getCachedLayoutConfig_process e w = (r, w1) \<Longrightarrow> articlesCache w1 = articlesCache w"
  by (auto simp: getCachedLayoutConfig_process_def Let_def
           split: option.splits layout_source.splits if_splits)

lemma getCachedArticles_error:
  "getCachedArticles e w = (Inl err, w1) \<Longrightarrow> w1 = w"
  by (auto simp: getCachedArticles_def Let_def split: option.splits sum.splits if_splits)

lemma Article_layout_process_ok:
  assumes "articles_cache_ok w"
  shows "articles_cache_ok (snd (Article_layout_process e w))"
proof -
  obtain r1 w1 where l: "getCachedLayoutConfig_process e w = (r1, w1)"
    by (cases "getCachedLayoutConfig_process e w") blast
  have ok1: "articles_cache_ok w1"
    using assms loader_keeps_articles_cache [OF l] by (simp add: articles_cache_ok_def)
  show ?thesis
  proof (cases r1)
    case (Inl err)
    with l ok1 show ?thesis by (simp add: Article_layout_process_def)
  next
    case layouts: (Inr layouts)
    obtain r2 w2 where c: "getCachedArticles e w1 = (r2, w2)"
      by (cases "getCachedArticles e w1") blast
    show ?thesis
    proof (cases r2)
      case (Inl err)
      with c have "w2 = w1" by (simp add: getCachedArticles_error)
      with l layouts c Inl ok1 show ?thesis by (simp add: Article_layout_process_def)
    next
      case (Inr cache)
      from getCachedArticles_ok [OF ok1 c [unfolded Inr]]
      have cok: "cache_active_only cache" by simp
      obtain r3 heap1 where p: "process_layouts (byHighlight cache) layouts
                \<lparr>combinedJsContent = [], results = [], r2Operations = []\<rparr>
                (all_articles cache) = (r3, heap1)"
        by (cases "process_layouts (byHighlight cache) layouts
                \<lparr>combinedJsContent = [], results = [], r2Operations = []\<rparr>
                (all_articles cache)") blast
      from process_layouts_heap [OF p] cok
      have "cache_active_only (cache\<lparr>all_articles := heap1\<rparr>)"
        by (simp add: cache_active_only_iff active_heap_def)
      then have "articles_cache_ok (w2\<lparr>articlesCache := Some (cache\<lparr>all_articles := heap1\<rparr>)\<rparr>)"
        by (simp add: articles_cache_ok_def)
      with l layouts c Inr p show ?thesis
        by (simp add: Article_layout_process_def Let_def articles_cache_ok_def split: sum.splits)
    qed
  qed
qed

lemma select_articles_refs:
  assumes "refs_below (length heap) byH" and "i \<in> set (select_articles byH l heap)"
  shows "i < length heap"
proof (cases "name_starts l ''highlight''")
  case True
  let ?k = "toLowerCase (case layout_name l of None \<Rightarrow> [] | Some n \<Rightarrow> n) @ ''_flag''"
  show ?thesis
  proof (cases "map_of byH ?k")
    case None
    with True assms(2) show ?thesis by (simp add: select_articles_def)
  next
    case (Some xs)
    with True assms(2) have "i \<in> set xs" by (simp add: select_articles_def)
    with refs_below_lookup [OF assms(1) Some] show ?thesis by simp
  qed
next
  case False
  with assms(2) show ?thesis by (simp add: select_articles_def)
qed

text \<open>
  C10. The item set used for rendering holds only mirror rows whose \<open>active\<close> column is
  \<open>'Yes'\<close>: this is true of every article in the list that \<open>getCachedArticles\<close>
  returns, of every article that a by-flag list refers to, and of every article that any
  layout selects for rendering, whether the list was just read from the table or comes
  from the cache; and rendering, which writes \<open>Counter\<close> into the cached articles,
  keeps it true of the cache.
\<close>

theorem rendered_items_are_active:
  assumes "articles_cache_ok w" and "getCachedArticles e w = (Inr c, w')"
  shows "(\<forall>a \<in> set (all_articles c). getp a ''active'' = JStr ''Yes'')
       \<and> (\<forall>k xs i. map_of (byHighlight c) k = Some xs \<longrightarrow> i \<in> set xs \<longrightarrow>
             i < length (all_articles c) \<and> getp (all_articles c ! i) ''active'' = JStr ''Yes'')
       \<and> (\<forall>l i. i \<in> set (select_articles (byHighlight c) l (all_articles c)) \<longrightarrow>
             i < length (all_articles c) \<and> getp (all_articles c ! i) ''active'' = JStr ''Yes'')
       \<and> articles_cache_ok w'
       \<and> articles_cache_ok (snd (Article_layout_process e w))"
proof -
  from getCachedArticles_ok [OF assms]
  have c: "cache_active_only c" and w': "articles_cache_ok w'" by simp_all
  from c have act: "\<forall>a \<in> set (all_articles c). getp a ''active'' = JStr ''Yes''"
    and refs: "refs_below (length (all_articles c)) (byHighlight c)"
    by (simp_all add: cache_active_only_iff)
  have 2: "\<forall>k xs i. map_of (byHighlight c) k = Some xs \<longrightarrow> i \<in> set xs \<longrightarrow>
             i < length (all_articles c) \<and> getp (all_articles c ! i) ''active'' = JStr ''Yes''"
    using refs_below_lookup [OF refs] act by (metis nth_mem)
  have 3: "\<forall>l i. i \<in> set (select_articles (byHighlight c) l (all_articles c)) \<longrightarrow>
             i < length (all_articles c) \<and> getp (all_articles c ! i) ''active'' = JStr ''Yes''"
    using select_articles_refs [OF refs] act by (metis nth_mem)
  from act 2 3 w' Article_layout_process_ok [OF assms(1)] show ?thesis by blast
qed

theorem rendered_items_are_active_witness:
  "articles_cache_ok (world_of mixed_rows)
   \<and> fst (getCachedArticles (env_of (Doc []) 5) (world_of mixed_rows))
       = Inr \<lparr>all_articles = [mirror_row 1 ''A'' 10], byHighlight = [(''highlight1_flag'', [0])]\<rparr>
   \<and> column ''active'' [mirror_row 1 ''A'' 10] = [JStr ''Yes'']
   \<and> articles_cache_ok (snd (Article_layout_process (env_of (Doc []) 5) (world_of mixed_rows)))"
proof -
  let ?c = "\<lparr>all_articles = [mirror_row 1 ''A'' 10], byHighlight = [(''highlight1_flag'', [0])]\<rparr>"
  let ?X = "getCachedArticles (env_of (Doc []) 5) (world_of mixed_rows)"
  have h1: "articles_cache_ok (world_of mixed_rows)" by code_simp
  have f: "fst ?X = Inr ?c" by code_simp
  then have h2: "?X = (Inr ?c, snd ?X)" by (metis prod.collapse)
  from rendered_items_are_active [OF h1 h2] h1 f show ?thesis by (simp add: column_def)
qed

section \<open>Classification: what the flag loops compute\<close>

lemma map_of_setp: "map_of (setp m k v) k' = (if k' = k then Some v else map_of m k')"
  by (induction m) auto

lemma keys_setp:
  "map fst (setp m k v) = (if k \<in> set (map fst m) then map fst m else map fst m @ [k])"
  by (induction m) (auto simp: rev_image_eqI)

lemma distinct_setp: "distinct (map fst m) \<Longrightarrow> distinct (map fst (setp m k v))"
  by (simp add: keys_setp)

lemma flag_names_distinct:
  "distinct (map highlight_flag flag_indices @ map articlegroup_flag flag_indices)"
  by code_simp

lemma highlight_flag_inj:
  assumes "i \<in> set flag_indices" "j \<in> set flag_indices" "highlight_flag i = highlight_flag j"
  shows "i = j"
proof -
  have "inj_on highlight_flag (set flag_indices)"
    using flag_names_distinct by (simp only: distinct_append distinct_map)
  with assms show ?thesis by (auto dest: inj_onD)
qed

lemma articlegroup_flag_inj:
  assumes "i \<in> set flag_indices" "j \<in> set flag_indices" "articlegroup_flag i = articlegroup_flag j"
  shows "i = j"
proof -
  have "inj_on articlegroup_flag (set flag_indices)"
    using flag_names_distinct by (simp only: distinct_append distinct_map)
  with assms show ?thesis by (auto dest: inj_onD)
qed

lemma highlight_not_articlegroup:
  assumes "i \<in> set flag_indices" "j \<in> set flag_indices"
  shows "highlight_flag i \<noteq> articlegroup_flag j"
proof -
  have "set (map highlight_flag flag_indices) \<inter> set (map articlegroup_flag flag_indices) = {}"
    using flag_names_distinct by (simp only: distinct_append)
  moreover have "highlight_flag i \<in> set (map highlight_flag flag_indices)"
    using assms(1) by (simp only: set_map) (rule imageI)
  moreover have "articlegroup_flag j \<in> set (map articlegroup_flag flag_indices)"
    using assms(2) by (simp only: set_map) (rule imageI)
  ultimately show ?thesis by (metis disjoint_iff)
qed

subsection \<open>The first loop\<close>

lemma collect_highlight_checks:
  "fst (collect_highlight ld data is (fcs, hf))
     = fcs @ map (highlight_check ld) (filter (highlight_needs_check ld data) is)"
proof (induction "is" arbitrary: fcs hf)
  case Nil
  then show ?case by simp
next
  case (Cons i "is")
  show ?case
    by (cases "map_of (layoutConfigMap ld) (highlight_layout i)")
       (simp_all add: Let_def Cons.IH highlight_needs_check_def highlight_check_def
          originalFlagValue_def)
qed

lemma collect_highlight_other:
  assumes "k \<notin> set (map highlight_flag is)"
  shows "getp (snd (collect_highlight ld data is (fcs, hf))) k = getp hf k"
  using assms
proof (induction "is" arbitrary: fcs hf)
  case Nil
  then show ?case by simp
next
  case (Cons i "is")
  then show ?case
    by (cases "map_of (layoutConfigMap ld) (highlight_layout i)")
       (simp_all add: Let_def getp_setp)
qed

lemma collect_highlight_value:
  assumes "i \<in> set is" and "distinct (map highlight_flag is)"
  shows "getp (snd (collect_highlight ld data is (fcs, hf))) (highlight_flag i)
       = (if highlight_needs_check ld data i then getp hf (highlight_flag i)
          else originalFlagValue data (highlight_flag i))"
  using assms
proof (induction "is" arbitrary: fcs hf)
  case Nil
  then show ?case by simp
next
  case (Cons j "is")
  show ?case
  proof (cases "i = j")
    case True
    with Cons.prems(2) have "highlight_flag i \<notin> set (map highlight_flag is)" by simp
    from collect_highlight_other [OF this] True show ?thesis
      by (cases "map_of (layoutConfigMap ld) (highlight_layout j)")
         (simp_all add: Let_def getp_setp highlight_needs_check_def originalFlagValue_def)
  next
    case False
    with Cons.prems have i: "i \<in> set is" and d: "distinct (map highlight_flag is)"
      and ne: "highlight_flag i \<noteq> highlight_flag j" by (auto simp: image_iff)
    from Cons.IH [OF i d] ne show ?thesis
      by (cases "map_of (layoutConfigMap ld) (highlight_layout j)")
         (simp_all add: Let_def getp_setp)
  qed
qed

lemma collect_highlight_step:
  "\<exists>fcs' hf'. collect_highlight ld data (i # is) (fcs, hf)
                  = collect_highlight ld data is (fcs', hf')
              \<and> (hf' = hf \<or> (\<exists>v. hf' = setp hf (highlight_flag i) v))"
  by (cases "map_of (layoutConfigMap ld) (highlight_layout i)") (auto simp: Let_def)

lemma keys_setp_subset: "fst ` set (setp m k v) \<subseteq> insert k (fst ` set m)"
  using keys_setp [of m k v] by (metis (no_types) image_set list.set_map set_append
      list.simps(15) Un_insert_right sup_bot.right_neutral subset_insertI subset_refl set_empty
      empty_set)

lemma collect_highlight_keys:
  "fst ` set (snd (collect_highlight ld data is (fcs, hf)))
     \<subseteq> fst ` set hf \<union> highlight_flag ` set is
   \<and> (distinct (map fst hf) \<longrightarrow> distinct (map fst (snd (collect_highlight ld data is (fcs, hf)))))"
proof (induction "is" arbitrary: fcs hf)
  case Nil
  then show ?case by simp
next
  case (Cons i "is")
  from collect_highlight_step [of ld data i "is" fcs hf] obtain fcs' hf'
    where eq: "collect_highlight ld data (i # is) (fcs, hf)
                 = collect_highlight ld data is (fcs', hf')"
      and hf': "hf' = hf \<or> (\<exists>v. hf' = setp hf (highlight_flag i) v)"
    by blast
  from hf' keys_setp_subset [of hf "highlight_flag i"]
  have k: "fst ` set hf' \<subseteq> insert (highlight_flag i) (fst ` set hf)"
    by blast
  from hf' distinct_setp [of hf "highlight_flag i"]
  have d: "distinct (map fst hf) \<longrightarrow> distinct (map fst hf')"
    by blast
  from Cons.IH [of fcs' hf']
  have ih1: "fst ` set (snd (collect_highlight ld data is (fcs', hf')))
               \<subseteq> fst ` set hf' \<union> highlight_flag ` set is"
    and ih2: "distinct (map fst hf')
               \<longrightarrow> distinct (map fst (snd (collect_highlight ld data is (fcs', hf'))))"
    by blast+
  have "fst ` set (snd (collect_highlight ld data is (fcs', hf')))
          \<subseteq> fst ` set hf \<union> highlight_flag ` set (i # is)"
    using ih1 k by auto
  moreover have "distinct (map fst hf)
          \<longrightarrow> distinct (map fst (snd (collect_highlight ld data is (fcs', hf'))))"
    using ih2 d by blast
  ultimately show ?case unfolding eq by blast
qed

subsection \<open>The second loop\<close>

lemma collect_articlegroup_checks:
  "fst (collect_articlegroup ld data is (fcs, gf))
     = fcs @ map (group_check ld) (filter (group_needs_check ld data) is)"
proof (induction "is" arbitrary: fcs gf)
  case Nil
  then show ?case by simp
next
  case (Cons i "is")
  show ?case
    by (cases "find (\<lambda>l. layout_name l = Some (articlegroup_layout i)) (activeArticleGroups ld)")
       (simp_all add: Let_def Cons.IH group_needs_check_def group_check_def group_layout_def)
qed

lemma collect_articlegroup_step:
  "\<exists>fcs' gf'. collect_articlegroup ld data (i # is) (fcs, gf)
                  = collect_articlegroup ld data is (fcs', gf')
              \<and> (if group_needs_check ld data i then gf' = gf
                 else gf' = setp gf (articlegroup_flag i) (group_unchecked_value ld data i))"
  by (cases "find (\<lambda>l. layout_name l = Some (articlegroup_layout i)) (activeArticleGroups ld)")
     (auto simp: Let_def group_needs_check_def group_unchecked_value_def group_layout_def
        originalFlagValue_def)

lemma collect_articlegroup_other:
  assumes "k \<notin> articlegroup_flag ` set is"
  shows "getp (snd (collect_articlegroup ld data is (fcs, gf))) k = getp gf k"
  using assms
proof (induction "is" arbitrary: fcs gf)
  case Nil
  then show ?case by simp
next
  case (Cons i "is")
  from collect_articlegroup_step [of ld data i "is" fcs gf] obtain fcs' gf'
    where eq: "collect_articlegroup ld data (i # is) (fcs, gf)
                 = collect_articlegroup ld data is (fcs', gf')"
      and gf': "gf' = gf \<or> gf' = setp gf (articlegroup_flag i) (group_unchecked_value ld data i)"
    by (metis (full_types))
  from Cons.prems have "k \<noteq> articlegroup_flag i" and "k \<notin> articlegroup_flag ` set is"
    by auto
  with Cons.IH [of fcs' gf'] gf' show ?case unfolding eq by (auto simp: getp_setp)
qed

lemma collect_articlegroup_value:
  assumes "i \<in> set is" and "distinct (map articlegroup_flag is)"
  shows "getp (snd (collect_articlegroup ld data is (fcs, gf))) (articlegroup_flag i)
       = (if group_needs_check ld data i then getp gf (articlegroup_flag i)
          else group_unchecked_value ld data i)"
  using assms
proof (induction "is" arbitrary: fcs gf)
  case Nil
  then show ?case by simp
next
  case (Cons j "is")
  from collect_articlegroup_step [of ld data j "is" fcs gf] obtain fcs' gf'
    where eq: "collect_articlegroup ld data (j # is) (fcs, gf)
                 = collect_articlegroup ld data is (fcs', gf')"
      and gf': "if group_needs_check ld data j then gf' = gf
                else gf' = setp gf (articlegroup_flag j) (group_unchecked_value ld data j)"
    by blast
  show ?case
  proof (cases "i = j")
    case True
    with Cons.prems(2) have "articlegroup_flag i \<notin> articlegroup_flag ` set is" by simp
    from collect_articlegroup_other [OF this] gf' True show ?thesis
      unfolding eq by (simp add: getp_setp)
  next
    case False
    with Cons.prems have i: "i \<in> set is" and d: "distinct (map articlegroup_flag is)"
      and ne: "articlegroup_flag i \<noteq> articlegroup_flag j" by (auto simp: image_iff)
    from Cons.IH [OF i d, of fcs' gf'] ne gf' show ?thesis
      unfolding eq by (auto simp: getp_setp split: if_splits)
  qed
qed

lemma collect_articlegroup_keys:
  "fst ` set (snd (collect_articlegroup ld data is (fcs, gf)))
     \<subseteq> fst ` set gf \<union> articlegroup_flag ` set is
   \<and> (distinct (map fst gf)
        \<longrightarrow> distinct (map fst (snd (collect_articlegroup ld data is (fcs, gf)))))"
proof (induction "is" arbitrary: fcs gf)
  case Nil
  then show ?case by simp
next
  case (Cons i "is")
  from collect_articlegroup_step [of ld data i "is" fcs gf] obtain fcs' gf'
    where eq: "collect_articlegroup ld data (i # is) (fcs, gf)
                 = collect_articlegroup ld data is (fcs', gf')"
      and gf': "gf' = gf \<or> gf' = setp gf (articlegroup_flag i) (group_unchecked_value ld data i)"
    by (metis (full_types))
  from gf' keys_setp_subset [of gf "articlegroup_flag i"]
  have k: "fst ` set gf' \<subseteq> insert (articlegroup_flag i) (fst ` set gf)"
    by blast
  from gf' distinct_setp [of gf "articlegroup_flag i"]
  have d: "distinct (map fst gf) \<longrightarrow> distinct (map fst gf')"
    by blast
  from Cons.IH [of fcs' gf']
  have ih1: "fst ` set (snd (collect_articlegroup ld data is (fcs', gf')))
               \<subseteq> fst ` set gf' \<union> articlegroup_flag ` set is"
    and ih2: "distinct (map fst gf')
               \<longrightarrow> distinct (map fst (snd (collect_articlegroup ld data is (fcs', gf'))))"
    by blast+
  have "fst ` set (snd (collect_articlegroup ld data is (fcs', gf')))
          \<subseteq> fst ` set gf \<union> articlegroup_flag ` set (i # is)"
    using ih1 k by auto
  moreover have "distinct (map fst gf)
          \<longrightarrow> distinct (map fst (snd (collect_articlegroup ld data is (fcs', gf'))))"
    using ih2 d by blast
  ultimately show ?case unfolding eq by blast
qed

subsection \<open>Applying the limit results\<close>

lemma keys_setp_mem: "a \<in> fst ` set (setp m k v) \<Longrightarrow> a = k \<or> a \<in> fst ` set m"
  using keys_setp_subset [of m k v] by blast

lemma keys_setp_mem2: "(a, b) \<in> set (setp m k v) \<Longrightarrow> a = k \<or> a \<in> fst ` set m"
  using keys_setp_mem [of a m k v] by (metis fst_conv image_eqI)

lemma find_append:
  "find P (xs @ ys) = (case find P xs of None \<Rightarrow> find P ys | Some x \<Rightarrow> Some x)"
  by (induction xs) auto

lemma apply_limit_results_step:
  "\<exists>hf' gf'. apply_limit_results res (fc # fcs) (hf, gf) = apply_limit_results res fcs (hf', gf')
     \<and> (if fc_type fc = highlight
         then hf' = setp hf (flagName fc) (yes_no (map_of res (flagName fc) = Some True)) \<and> gf' = gf
         else gf' = setp gf (flagName fc) (yes_no (map_of res (flagName fc) = Some True)) \<and> hf' = hf)"
  by (simp add: Let_def yes_no_def)

lemma apply_limit_results_highlight:
  "getp (fst (apply_limit_results res fcs (hf, gf))) k
     = (case find (\<lambda>fc. flagName fc = k \<and> fc_type fc = highlight) (rev fcs) of
          None \<Rightarrow> getp hf k
        | Some fc \<Rightarrow> yes_no (map_of res k = Some True))"
proof (induction fcs arbitrary: hf gf)
  case Nil
  then show ?case by simp
next
  case (Cons fc fcs)
  from apply_limit_results_step [of res fc fcs hf gf] obtain hf' gf'
    where eq: "apply_limit_results res (fc # fcs) (hf, gf) = apply_limit_results res fcs (hf', gf')"
      and st: "if fc_type fc = highlight
         then hf' = setp hf (flagName fc) (yes_no (map_of res (flagName fc) = Some True)) \<and> gf' = gf
         else gf' = setp gf (flagName fc) (yes_no (map_of res (flagName fc) = Some True)) \<and> hf' = hf"
    by blast
  show ?case
    unfolding eq Cons.IH [of hf' gf'] using st
    by (auto simp: find_append getp_setp split: option.splits if_splits)
qed

lemma apply_limit_results_articlegroup:
  "getp (snd (apply_limit_results res fcs (hf, gf))) k
     = (case find (\<lambda>fc. flagName fc = k \<and> fc_type fc \<noteq> highlight) (rev fcs) of
          None \<Rightarrow> getp gf k
        | Some fc \<Rightarrow> yes_no (map_of res k = Some True))"
proof (induction fcs arbitrary: hf gf)
  case Nil
  then show ?case by simp
next
  case (Cons fc fcs)
  from apply_limit_results_step [of res fc fcs hf gf] obtain hf' gf'
    where eq: "apply_limit_results res (fc # fcs) (hf, gf) = apply_limit_results res fcs (hf', gf')"
      and st: "if fc_type fc = highlight
         then hf' = setp hf (flagName fc) (yes_no (map_of res (flagName fc) = Some True)) \<and> gf' = gf
         else gf' = setp gf (flagName fc) (yes_no (map_of res (flagName fc) = Some True)) \<and> hf' = hf"
    by blast
  show ?case
    unfolding eq Cons.IH [of hf' gf'] using st
    by (auto simp: find_append getp_setp split: option.splits if_splits)
qed

lemma apply_limit_results_keys:
  "(\<forall>k \<in> fst ` set (fst (apply_limit_results res fcs (hf, gf))).
       k \<in> fst ` set hf \<or> (\<exists>fc \<in> set fcs. fc_type fc = highlight \<and> flagName fc = k))
   \<and> (\<forall>k \<in> fst ` set (snd (apply_limit_results res fcs (hf, gf))).
       k \<in> fst ` set gf \<or> (\<exists>fc \<in> set fcs. fc_type fc \<noteq> highlight \<and> flagName fc = k))
   \<and> (distinct (map fst hf) \<longrightarrow> distinct (map fst (fst (apply_limit_results res fcs (hf, gf)))))
   \<and> (distinct (map fst gf) \<longrightarrow> distinct (map fst (snd (apply_limit_results res fcs (hf, gf)))))"
proof (induction fcs arbitrary: hf gf)
  case Nil
  then show ?case by simp
next
  case (Cons fc fcs)
  from apply_limit_results_step [of res fc fcs hf gf] obtain hf' gf'
    where eq: "apply_limit_results res (fc # fcs) (hf, gf) = apply_limit_results res fcs (hf', gf')"
      and st: "if fc_type fc = highlight
         then hf' = setp hf (flagName fc) (yes_no (map_of res (flagName fc) = Some True)) \<and> gf' = gf
         else gf' = setp gf (flagName fc) (yes_no (map_of res (flagName fc) = Some True)) \<and> hf' = hf"
    by blast
  have kh: "\<forall>k \<in> fst ` set hf'. k \<in> fst ` set hf \<or> (fc_type fc = highlight \<and> flagName fc = k)"
    using st by (cases "fc_type fc = highlight") (auto dest: keys_setp_mem2)
  have kg: "\<forall>k \<in> fst ` set gf'. k \<in> fst ` set gf \<or> (fc_type fc \<noteq> highlight \<and> flagName fc = k)"
    using st by (cases "fc_type fc = highlight") (auto dest: keys_setp_mem2)
  have dh: "distinct (map fst hf) \<longrightarrow> distinct (map fst hf')"
    using st distinct_setp [of hf "flagName fc"] by (auto split: if_splits)
  have dg: "distinct (map fst gf) \<longrightarrow> distinct (map fst gf')"
    using st distinct_setp [of gf "flagName fc"] by (auto split: if_splits)
  from Cons.IH [of hf' gf']
  have ih1: "\<forall>k \<in> fst ` set (fst (apply_limit_results res fcs (hf', gf'))).
       k \<in> fst ` set hf' \<or> (\<exists>fc \<in> set fcs. fc_type fc = highlight \<and> flagName fc = k)"
   and ih2: "\<forall>k \<in> fst ` set (snd (apply_limit_results res fcs (hf', gf'))).
       k \<in> fst ` set gf' \<or> (\<exists>fc \<in> set fcs. fc_type fc \<noteq> highlight \<and> flagName fc = k)"
   and ih3: "distinct (map fst hf') \<longrightarrow> distinct (map fst (fst (apply_limit_results res fcs (hf', gf'))))"
   and ih4: "distinct (map fst gf') \<longrightarrow> distinct (map fst (snd (apply_limit_results res fcs (hf', gf'))))"
    by blast+
  have 1: "\<forall>k \<in> fst ` set (fst (apply_limit_results res fcs (hf', gf'))).
       k \<in> fst ` set hf \<or> (\<exists>x \<in> set (fc # fcs). fc_type x = highlight \<and> flagName x = k)"
    using ih1 kh by (metis list.set_intros(1,2))
  have 2: "\<forall>k \<in> fst ` set (snd (apply_limit_results res fcs (hf', gf'))).
       k \<in> fst ` set gf \<or> (\<exists>x \<in> set (fc # fcs). fc_type x \<noteq> highlight \<and> flagName x = k)"
    using ih2 kg by (metis list.set_intros(1,2))
  from 1 2 ih3 ih4 dh dg show ?case unfolding eq by blast
qed

lemma map_of_foldl_setp:
  "map_of (foldl (\<lambda>m x. setp m (f x) (g x)) m0 xs) k
     = (case find (\<lambda>x. f x = k) (rev xs) of None \<Rightarrow> map_of m0 k | Some x \<Rightarrow> Some (g x))"
proof (induction xs arbitrary: m0)
  case Nil
  then show ?case by simp
next
  case (Cons x xs)
  show ?case
    by (simp add: Cons.IH find_append map_of_setp split: option.splits)
qed

lemma find_distinct:
  assumes "distinct (map f xs)" and "x \<in> set xs"
  shows "find (\<lambda>y. f y = f x) (rev xs) = Some x"
  using assms
proof (induction xs)
  case Nil
  then show ?case by simp
next
  case (Cons y ys)
  show ?case
  proof (cases "x \<in> set ys")
    case True
    with Cons show ?thesis by (simp add: find_append)
  next
    case False
    with Cons.prems have xy: "x = y" by simp
    have "find (\<lambda>z. f z = f x) (rev ys) = None"
      using Cons.prems(1) xy by (auto simp: find_None_iff image_iff)
    with xy show ?thesis by (simp add: find_append)
  qed
qed

lemma limit_results_lookup:
  assumes "D1 e" and "distinct (map flagName fcs)" and "fc \<in> set fcs"
      and "layout_limit (fc_layout fc) > 0"
  shows "map_of (checkMultipleLayoutLimits e w fcs i) (flagName fc)
       = Some (within_limit e w (flagName fc) (layout_limit (fc_layout fc)) i)"
proof -
  from assms(3) have ne: "fcs \<noteq> []" by auto
  note f = find_distinct [OF assms(2,3)]
  show ?thesis
  proof (cases "d1_rows e BatchCount w")
    case (Some rows)
    with assms(1,4) ne f show ?thesis
      by (simp add: checkMultipleLayoutLimits_def map_of_foldl_setp Let_def within_limit_def)
  next
    case None
    with assms(1,4) ne f show ?thesis
      by (simp add: checkMultipleLayoutLimits_def map_of_foldl_setp within_limit_def
            checkLayoutLimit_def split: option.splits)
  qed
qed

subsection \<open>The checks and the resolved flags\<close>

lemma flags_to_check_eq:
  "flags_to_check ld data
     = map (highlight_check ld) (filter (highlight_needs_check ld data) flag_indices)
       @ map (group_check ld) (filter (group_needs_check ld data) flag_indices)"
proof -
  obtain fc1 hf where h: "collect_highlight ld data flag_indices ([], []) = (fc1, hf)"
    by (cases "collect_highlight ld data flag_indices ([], [])") blast
  from collect_highlight_checks [of ld data "flag_indices" "[]" "[]"] h
  have fc1: "fc1 = map (highlight_check ld) (filter (highlight_needs_check ld data) flag_indices)"
    by simp
  show ?thesis
    unfolding flags_to_check_def h
    by (simp only: prod.case Let_def collect_articlegroup_checks fc1)
qed

lemma collect_articlegroup_flags_only:
  "snd (collect_articlegroup ld data is (fcs, gf)) = snd (collect_articlegroup ld data is ([], gf))"
proof (induction "is" arbitrary: fcs gf)
  case Nil
  then show ?case by simp
next
  case (Cons i "is")
  from collect_articlegroup_step [of ld data i "is" fcs gf] obtain fcs1 gf1
    where eq1: "collect_articlegroup ld data (i # is) (fcs, gf)
                 = collect_articlegroup ld data is (fcs1, gf1)"
      and gf1: "if group_needs_check ld data i then gf1 = gf
                else gf1 = setp gf (articlegroup_flag i) (group_unchecked_value ld data i)"
    by blast
  from collect_articlegroup_step [of ld data i "is" "[]" gf] obtain fcs2 gf2
    where eq2: "collect_articlegroup ld data (i # is) ([], gf)
                 = collect_articlegroup ld data is (fcs2, gf2)"
      and gf2: "if group_needs_check ld data i then gf2 = gf
                else gf2 = setp gf (articlegroup_flag i) (group_unchecked_value ld data i)"
    by blast
  from gf1 gf2 have "gf1 = gf2" by (simp split: if_splits)
  with Cons.IH [of fcs1 gf1] Cons.IH [of fcs2 gf2] show ?case
    unfolding eq1 eq2 by simp
qed

lemma resolve_flags_eq:
  "resolve_flags e w ld data i
     = apply_limit_results (checkMultipleLayoutLimits e w (flags_to_check ld data) i)
         (flags_to_check ld data)
         (snd (collect_highlight ld data flag_indices ([], [])),
          snd (collect_articlegroup ld data flag_indices ([], [])))"
proof -
  obtain fc1 hf where h: "collect_highlight ld data flag_indices ([], []) = (fc1, hf)"
    by (cases "collect_highlight ld data flag_indices ([], [])") blast
  obtain fcs gf where g: "collect_articlegroup ld data flag_indices (fc1, []) = (fcs, gf)"
    by (cases "collect_articlegroup ld data flag_indices (fc1, [])") blast
  have fcs: "flags_to_check ld data = fcs"
    using g by (simp add: flags_to_check_def h)
  have gf: "snd (collect_articlegroup ld data flag_indices ([], [])) = gf"
    using collect_articlegroup_flags_only [of ld data flag_indices fc1 "[]"] g by simp
  show ?thesis
    unfolding fcs gf by (cases "fcs = []") (simp_all add: resolve_flags_def h g)
qed

lemma check_names_distinct: "distinct (map flagName (flags_to_check ld data))"
proof -
  have "map flagName (flags_to_check ld data)
      = map highlight_flag (filter (highlight_needs_check ld data) flag_indices)
        @ map articlegroup_flag (filter (group_needs_check ld data) flag_indices)"
    by (simp add: flags_to_check_eq highlight_check_def group_check_def comp_def)
  moreover have "distinct (map highlight_flag (filter (highlight_needs_check ld data) flag_indices)
       @ map articlegroup_flag (filter (group_needs_check ld data) flag_indices))"
    using flag_names_distinct
    by (simp only: distinct_append distinct_map_filter set_map) (auto)
  ultimately show ?thesis by simp
qed

text \<open>The resolved value of a highlight flag and of a group flag.\<close>

lemma resolved_highlight:
  assumes "D1 e" and "i \<in> set flag_indices"
  shows "getp (fst (resolve_flags e w ld data articleId)) (highlight_flag i)
       = (if highlight_needs_check ld data i
          then yes_no (within_limit e w (highlight_flag i)
                 (layout_limit (fc_layout (highlight_check ld i))) articleId)
          else originalFlagValue data (highlight_flag i))"
proof -
  let ?fcs = "flags_to_check ld data"
  let ?P = "\<lambda>fc. flagName fc = highlight_flag i \<and> fc_type fc = highlight"
  have dist: "distinct (map highlight_flag flag_indices)"
    using flag_names_distinct by simp
  show ?thesis
  proof (cases "highlight_needs_check ld data i")
    case True
    then have mem: "highlight_check ld i \<in> set ?fcs"
      using assms(2) by (simp add: flags_to_check_eq)
    moreover have "?P (highlight_check ld i)" by (simp add: highlight_check_def)
    ultimately have "find ?P (rev ?fcs) \<noteq> None"
      unfolding find_None_iff set_rev by blast
    then obtain fc where fc: "find ?P (rev ?fcs) = Some fc" by blast
    have lim: "layout_limit (fc_layout (highlight_check ld i)) > 0"
      using True by (auto simp: highlight_needs_check_def highlight_check_def split: option.splits)
    from limit_results_lookup [OF assms(1) check_names_distinct mem lim, of w articleId]
    have "map_of (checkMultipleLayoutLimits e w ?fcs articleId) (highlight_flag i)
        = Some (within_limit e w (highlight_flag i)
                 (layout_limit (fc_layout (highlight_check ld i))) articleId)"
      by (simp add: highlight_check_def)
    with True fc show ?thesis
      by (simp add: resolve_flags_eq apply_limit_results_highlight)
  next
    case False
    have "find ?P (rev ?fcs) = None"
    proof (rule ccontr)
      assume "find ?P (rev ?fcs) \<noteq> None"
      then obtain fc where "fc \<in> set ?fcs" and "?P fc"
        by (auto simp: find_None_iff)
      then obtain j where "j \<in> set flag_indices" "highlight_needs_check ld data j"
        "highlight_flag j = highlight_flag i"
        by (auto simp: flags_to_check_eq highlight_check_def group_check_def)
      with highlight_flag_inj [of j i] assms(2) False show False by blast
    qed
    with False collect_highlight_value [OF assms(2) dist, of ld data "[]" "[]"] show ?thesis
      by (simp add: resolve_flags_eq apply_limit_results_highlight)
  qed
qed

lemma resolved_articlegroup:
  assumes "D1 e" and "i \<in> set flag_indices"
  shows "getp (snd (resolve_flags e w ld data articleId)) (articlegroup_flag i)
       = (if group_needs_check ld data i
          then yes_no (within_limit e w (articlegroup_flag i)
                 (layout_limit (fc_layout (group_check ld i))) articleId)
          else group_unchecked_value ld data i)"
proof -
  let ?fcs = "flags_to_check ld data"
  let ?P = "\<lambda>fc. flagName fc = articlegroup_flag i \<and> fc_type fc \<noteq> highlight"
  have dist: "distinct (map articlegroup_flag flag_indices)"
    using flag_names_distinct by simp
  show ?thesis
  proof (cases "group_needs_check ld data i")
    case True
    then have mem: "group_check ld i \<in> set ?fcs"
      using assms(2) by (simp add: flags_to_check_eq)
    moreover have "?P (group_check ld i)" by (simp add: group_check_def)
    ultimately have "find ?P (rev ?fcs) \<noteq> None"
      unfolding find_None_iff set_rev by blast
    then obtain fc where fc: "find ?P (rev ?fcs) = Some fc" by blast
    have lim: "layout_limit (fc_layout (group_check ld i)) > 0"
      using True by (auto simp: group_needs_check_def group_check_def split: option.splits)
    from limit_results_lookup [OF assms(1) check_names_distinct mem lim, of w articleId]
    have "map_of (checkMultipleLayoutLimits e w ?fcs articleId) (articlegroup_flag i)
        = Some (within_limit e w (articlegroup_flag i)
                 (layout_limit (fc_layout (group_check ld i))) articleId)"
      by (simp add: group_check_def)
    with True fc show ?thesis
      by (simp add: resolve_flags_eq apply_limit_results_articlegroup)
  next
    case False
    have "find ?P (rev ?fcs) = None"
    proof (rule ccontr)
      assume "find ?P (rev ?fcs) \<noteq> None"
      then obtain fc where "fc \<in> set ?fcs" and "?P fc"
        by (auto simp: find_None_iff)
      then obtain j where "j \<in> set flag_indices" "group_needs_check ld data j"
        "articlegroup_flag j = articlegroup_flag i"
        by (auto simp: flags_to_check_eq highlight_check_def group_check_def)
      with articlegroup_flag_inj [of j i] assms(2) False show False by blast
    qed
    with False collect_articlegroup_value [OF assms(2) dist, of ld data "[]" "[]"] show ?thesis
      by (simp add: resolve_flags_eq apply_limit_results_articlegroup)
  qed
qed

subsection \<open>Rows of other articles\<close>

lemma resolve_flags_keys:
  "fst ` set (fst (resolve_flags e w ld data i)) \<subseteq> highlight_flag ` set flag_indices
   \<and> fst ` set (snd (resolve_flags e w ld data i)) \<subseteq> articlegroup_flag ` set flag_indices
   \<and> distinct (map fst (fst (resolve_flags e w ld data i)))
   \<and> distinct (map fst (snd (resolve_flags e w ld data i)))"
proof -
  let ?hf = "snd (collect_highlight ld data flag_indices ([], []))"
  let ?gf = "snd (collect_articlegroup ld data flag_indices ([], []))"
  let ?fcs = "flags_to_check ld data"
  let ?res = "checkMultipleLayoutLimits e w ?fcs i"
  from collect_highlight_keys [of ld data flag_indices "[]" "[]"]
  have hk: "fst ` set ?hf \<subseteq> highlight_flag ` set flag_indices" and hd: "distinct (map fst ?hf)"
    by simp_all
  from collect_articlegroup_keys [of ld data flag_indices "[]" "[]"]
  have gk: "fst ` set ?gf \<subseteq> articlegroup_flag ` set flag_indices" and gd: "distinct (map fst ?gf)"
    by simp_all
  have th: "\<And>fc. fc \<in> set ?fcs \<Longrightarrow> fc_type fc = highlight
              \<Longrightarrow> flagName fc \<in> highlight_flag ` set flag_indices"
    by (auto simp: flags_to_check_eq highlight_check_def group_check_def)
  have tg: "\<And>fc. fc \<in> set ?fcs \<Longrightarrow> fc_type fc \<noteq> highlight
              \<Longrightarrow> flagName fc \<in> articlegroup_flag ` set flag_indices"
    by (auto simp: flags_to_check_eq highlight_check_def group_check_def)
  from apply_limit_results_keys [of ?res ?fcs ?hf ?gf]
  have a1: "\<forall>k \<in> fst ` set (fst (apply_limit_results ?res ?fcs (?hf, ?gf))).
       k \<in> fst ` set ?hf \<or> (\<exists>fc \<in> set ?fcs. fc_type fc = highlight \<and> flagName fc = k)"
   and a2: "\<forall>k \<in> fst ` set (snd (apply_limit_results ?res ?fcs (?hf, ?gf))).
       k \<in> fst ` set ?gf \<or> (\<exists>fc \<in> set ?fcs. fc_type fc \<noteq> highlight \<and> flagName fc = k)"
   and a3: "distinct (map fst ?hf) \<longrightarrow> distinct (map fst (fst (apply_limit_results ?res ?fcs (?hf, ?gf))))"
   and a4: "distinct (map fst ?gf) \<longrightarrow> distinct (map fst (snd (apply_limit_results ?res ?fcs (?hf, ?gf))))"
    by blast+
  have 1: "fst ` set (fst (apply_limit_results ?res ?fcs (?hf, ?gf))) \<subseteq> highlight_flag ` set flag_indices"
  proof
    fix k
    assume "k \<in> fst ` set (fst (apply_limit_results ?res ?fcs (?hf, ?gf)))"
    with a1 consider (old) "k \<in> fst ` set ?hf"
      | (new) fc where "fc \<in> set ?fcs" "fc_type fc = highlight" "flagName fc = k"
      by blast
    then show "k \<in> highlight_flag ` set flag_indices"
    proof cases
      case old
      with hk show ?thesis by blast
    next
      case new
      with th [of fc] show ?thesis by simp
    qed
  qed
  have 2: "fst ` set (snd (apply_limit_results ?res ?fcs (?hf, ?gf))) \<subseteq> articlegroup_flag ` set flag_indices"
  proof
    fix k
    assume "k \<in> fst ` set (snd (apply_limit_results ?res ?fcs (?hf, ?gf)))"
    with a2 consider (old) "k \<in> fst ` set ?gf"
      | (new) fc where "fc \<in> set ?fcs" "fc_type fc \<noteq> highlight" "flagName fc = k"
      by blast
    then show "k \<in> articlegroup_flag ` set flag_indices"
    proof cases
      case old
      with gk show ?thesis by blast
    next
      case new
      with tg [of fc] show ?thesis by simp
    qed
  qed
  from a3 hd have 3: "distinct (map fst (fst (apply_limit_results ?res ?fcs (?hf, ?gf))))" by simp
  from a4 gd have 4: "distinct (map fst (snd (apply_limit_results ?res ?fcs (?hf, ?gf))))" by simp
  from 1 2 3 4 show ?thesis unfolding resolve_flags_eq by simp
qed

lemma getp_foldl_setp_other:
  assumes "k \<notin> fst ` set kvs"
  shows "getp (foldl (\<lambda>r' (k, v). setp r' k v) r kvs) k = getp r k"
  using assms by (induction kvs arbitrary: r) (auto simp: getp_setp)

lemma update_row_other:
  assumes "k \<noteq> ''last_update_date''" and "k \<notin> fst ` set hf" and "k \<notin> fst ` set gf"
  shows "getp (update_row hf gf t r) k = getp r k"
  unfolding update_row_def
  by (rule getp_foldl_setp_other) (use assms in \<open>simp add: image_Un\<close>)

lemma article_id_no_highlight: "''article_id'' \<notin> highlight_flag ` set flag_indices"
  by code_simp

lemma article_id_no_group: "''article_id'' \<notin> articlegroup_flag ` set flag_indices"
  by code_simp

lemma update_row_keeps_id:
  assumes "fst ` set hf \<subseteq> highlight_flag ` set flag_indices"
      and "fst ` set gf \<subseteq> articlegroup_flag ` set flag_indices"
  shows "getp (update_row hf gf t r) ''article_id'' = getp r ''article_id''"
proof (rule update_row_other)
  show "''article_id'' \<noteq> ''last_update_date''" by simp
  show "''article_id'' \<notin> fst ` set hf"
    using assms(1) article_id_no_highlight by (rule contra_subsetD)
  show "''article_id'' \<notin> fst ` set gf"
    using assms(2) article_id_no_group by (rule contra_subsetD)
qed

lemma other_rows_append_own:
  assumes "sql_eq (getp r ''article_id'') i"
  shows "other_rows i (rows @ [r]) = other_rows i rows"
  using assms by (simp add: other_rows_def)

lemma other_rows_delete: "other_rows i (delete_rows i rows) = other_rows i rows"
  by (simp add: other_rows_def delete_rows_def)

lemma other_rows_update:
  assumes "fst ` set hf \<subseteq> highlight_flag ` set flag_indices"
      and "fst ` set gf \<subseteq> articlegroup_flag ` set flag_indices"
  shows "other_rows i (update_rows i hf gf t rows) = other_rows i rows"
  unfolding other_rows_def update_rows_def
  by (induction rows) (auto simp: update_row_keeps_id [OF assms])

lemma insert_values_id: "getp (insert_values data i hf gf t) ''article_id'' = i"
  by (simp add: insert_values_def getp_def)

lemma truthy_sql_eq: "truthy i \<Longrightarrow> sql_eq i i"
  by (cases i) (auto simp: sql_eq_def)

lemma mirror_rows_ensure: "mirror_rows (ensureTableExists e w) = mirror_rows w"
  by (auto simp: ensureTableExists_def mirror_rows_def split: option.splits)

lemma mirror_rows_loader: "mirror_rows (snd (getCachedLayoutConfig_hooks e w)) = mirror_rows w"
  by (auto simp: getCachedLayoutConfig_hooks_def mirror_rows_def Let_def
           split: option.splits layout_source.splits)

lemma d1_run_other_rows:
  assumes "\<And>rows. other_rows i (f rows) = other_rows i rows"
  shows "other_rows i (mirror_rows (snd (d1_run e s f w))) = other_rows i (mirror_rows w)"
  using assms by (auto simp: d1_run_def d1_rows_def mirror_rows_def split: option.splits if_splits)

lemma sync_try_other_rows:
  assumes "truthy i"
  shows "other_rows i (mirror_rows (snd (sync_try data e op i w))) = other_rows i (mirror_rows w)"
proof -
  obtain ld w1 where l: "getCachedLayoutConfig_hooks e w = (ld, w1)"
    by (cases "getCachedLayoutConfig_hooks e w") blast
  let ?w2 = "ensureTableExists e w1"
  obtain hf gf where rf: "resolve_flags e ?w2 ld data i = (hf, gf)"
    by (cases "resolve_flags e ?w2 ld data i") blast
  from resolve_flags_keys [of e ?w2 ld data i] rf
  have hk: "fst ` set hf \<subseteq> highlight_flag ` set flag_indices"
   and gk: "fst ` set gf \<subseteq> articlegroup_flag ` set flag_indices" by simp_all
  have base: "mirror_rows ?w2 = mirror_rows w"
    using mirror_rows_loader [of e w] l by (simp add: mirror_rows_ensure)
  have ins: "\<And>rows. other_rows i (rows @ [insert_values data i hf gf (now e)]) = other_rows i rows"
    by (rule other_rows_append_own) (simp add: insert_values_id truthy_sql_eq assms)
  have r1: "other_rows i (mirror_rows (snd (d1_run e InsertRow
              (\<lambda>rows. rows @ [insert_values data i hf gf (now e)]) ?w2))) = other_rows i (mirror_rows w)"
    using d1_run_other_rows [of i "\<lambda>rows. rows @ [insert_values data i hf gf (now e)]", OF ins]
    by (simp add: base)
  have r2: "other_rows i (mirror_rows (snd (d1_run e DeleteRow (delete_rows i) ?w2)))
              = other_rows i (mirror_rows w)"
    using d1_run_other_rows [of i "delete_rows i", OF other_rows_delete] by (simp add: base)
  have r3: "other_rows i (mirror_rows (snd (d1_run e UpdateRow (update_rows i hf gf (now e)) ?w2)))
              = other_rows i (mirror_rows w)"
    using d1_run_other_rows [of i "update_rows i hf gf (now e)", OF other_rows_update [OF hk gk]]
    by (simp add: base)
  show ?thesis
    by (simp add: sync_try_def l Let_def rf r1 r2 r3 base split: operation.splits option.splits)
qed

lemma sync_other_rows:
  "other_rows (getp data ''article_id'') (mirror_rows (syncToArticlesGroups data e op w))
     = other_rows (getp data ''article_id'') (mirror_rows w)"
  by (simp add: syncToArticlesGroups_def Let_def sync_try_other_rows)

lemma count_others_own:
  "count_others rows flag i = count_others (other_rows i rows) flag i"
proof -
  have "filter (\<lambda>r. sql_eq (getp r flag) (JStr ''Yes'') \<and> sql_ne (getp r ''article_id'') i) rows
     = filter (\<lambda>r. \<not> sql_eq (getp r ''article_id'') i
                   \<and> sql_eq (getp r flag) (JStr ''Yes'') \<and> sql_ne (getp r ''article_id'') i) rows"
    by (rule filter_cong) (auto simp: sql_ne_def sql_eq_def)
  then show ?thesis by (simp add: count_others_def other_rows_def)
qed

section \<open>Group flags\<close>

lemma check_membership_group:
  assumes "i \<in> set flag_indices"
  shows "articlegroup_flag i \<in> flagName ` set (flags_to_check ld data) \<longleftrightarrow> group_needs_check ld data i"
proof
  assume "articlegroup_flag i \<in> flagName ` set (flags_to_check ld data)"
  then obtain fc where fc: "fc \<in> set (flags_to_check ld data)" "flagName fc = articlegroup_flag i"
    by (metis imageE)
  from fc(1) consider
      (h) j where "j \<in> set flag_indices" "fc = highlight_check ld j"
    | (g) j where "j \<in> set flag_indices" "group_needs_check ld data j" "fc = group_check ld j"
    by (auto simp: flags_to_check_eq)
  then show "group_needs_check ld data i"
  proof cases
    case h
    with fc(2) have "highlight_flag j = articlegroup_flag i" by (simp add: highlight_check_def)
    with highlight_not_articlegroup [OF h(1) assms] show ?thesis by simp
  next
    case g
    with fc(2) have "articlegroup_flag j = articlegroup_flag i" by (simp add: group_check_def)
    with articlegroup_flag_inj [OF g(1) assms] g(2) show ?thesis by simp
  qed
next
  assume "group_needs_check ld data i"
  with assms have "group_check ld i \<in> set (flags_to_check ld data)"
    by (simp add: flags_to_check_eq)
  then have "flagName (group_check ld i) \<in> flagName ` set (flags_to_check ld data)"
    by (rule imageI)
  then show "articlegroup_flag i \<in> flagName ` set (flags_to_check ld data)"
    by (simp add: group_check_def)
qed

text \<open>
  C7 (as amended). For a group flag N of an item that is classified: when the registry
  has no active layout \<open>ArticleGroupN\<close>, the flag resolves to the item's own value of
  that flag, and to \<open>No\<close> only when the item has none. When there is an active layout,
  the flag is a candidate exactly when the layout has no \<open>where_clause\<close> or the clause
  matches the item: a non-candidate resolves to \<open>No\<close>, a candidate without a positive
  limit to \<open>Yes\<close>, and a candidate with a positive limit is sent to the limit check,
  whose answer it takes.
\<close>

theorem group_flag_resolution:
  assumes "D1 e" and "i \<in> set flag_indices"
  shows "(group_layout ld i = None \<longrightarrow>
            getp (snd (resolve_flags e w ld data articleId)) (articlegroup_flag i)
              = js_or (getp data (articlegroup_flag i)) (JStr ''No''))
       \<and> (\<forall>l. group_layout ld i = Some l \<longrightarrow>
            (\<not> shouldInclude data l \<longrightarrow>
               getp (snd (resolve_flags e w ld data articleId)) (articlegroup_flag i) = JStr ''No'')
          \<and> (shouldInclude data l \<longrightarrow> layout_limit l \<le> 0 \<longrightarrow>
               getp (snd (resolve_flags e w ld data articleId)) (articlegroup_flag i) = JStr ''Yes'')
          \<and> (shouldInclude data l \<longrightarrow> layout_limit l > 0 \<longrightarrow>
               getp (snd (resolve_flags e w ld data articleId)) (articlegroup_flag i)
                 = yes_no (within_limit e w (articlegroup_flag i) (layout_limit l) articleId))
          \<and> (articlegroup_flag i \<in> flagName ` set (flags_to_check ld data)
               \<longleftrightarrow> shouldInclude data l \<and> layout_limit l > 0))"
proof -
  note r = resolved_articlegroup [OF assms, of w ld data articleId]
  have none: "group_layout ld i = None \<longrightarrow>
            getp (snd (resolve_flags e w ld data articleId)) (articlegroup_flag i)
              = js_or (getp data (articlegroup_flag i)) (JStr ''No'')"
    using r by (simp add: group_needs_check_def group_unchecked_value_def originalFlagValue_def)
  have some: "\<And>l. group_layout ld i = Some l \<Longrightarrow>
            (\<not> shouldInclude data l \<longrightarrow>
               getp (snd (resolve_flags e w ld data articleId)) (articlegroup_flag i) = JStr ''No'')
          \<and> (shouldInclude data l \<longrightarrow> layout_limit l \<le> 0 \<longrightarrow>
               getp (snd (resolve_flags e w ld data articleId)) (articlegroup_flag i) = JStr ''Yes'')
          \<and> (shouldInclude data l \<longrightarrow> layout_limit l > 0 \<longrightarrow>
               getp (snd (resolve_flags e w ld data articleId)) (articlegroup_flag i)
                 = yes_no (within_limit e w (articlegroup_flag i) (layout_limit l) articleId))
          \<and> (articlegroup_flag i \<in> flagName ` set (flags_to_check ld data)
               \<longleftrightarrow> shouldInclude data l \<and> layout_limit l > 0)"
    using r check_membership_group [OF assms(2), of ld data]
    by (simp add: group_needs_check_def group_unchecked_value_def group_check_def)
  from none some show ?thesis by blast
qed

theorem group_flag_resolution_witness:
  "group_layout (build_layout_data [group_layout_news]) 1 = Some group_layout_news
   \<and> shouldInclude item_news group_layout_news
   \<and> getp (snd (resolve_flags (env_of (Doc [group_layout_news]) 5) (world_of [])
                 (build_layout_data [group_layout_news]) item_news (JNum 8)))
        (articlegroup_flag 1) = JStr ''Yes''
   \<and> \<not> shouldInclude item_sport group_layout_news
   \<and> getp (snd (resolve_flags (env_of (Doc [group_layout_news]) 5) (world_of [])
                 (build_layout_data [group_layout_news]) item_sport (JNum 9)))
        (articlegroup_flag 1) = JStr ''No''
   \<and> group_layout (build_layout_data [group_layout_news]) 2 = None
   \<and> getp (snd (resolve_flags (env_of (Doc [group_layout_news]) 5) (world_of [])
                 (build_layout_data [group_layout_news]) item_sport (JNum 9)))
        (articlegroup_flag 2) = JStr ''No''"
proof -
  let ?e = "env_of (Doc [group_layout_news]) 5"
  let ?ld = "build_layout_data [group_layout_news]"
  have d: "D1 ?e" by (simp add: env_of_def)
  have i1: "1 \<in> set flag_indices" and i2: "2 \<in> set flag_indices" by code_simp+
  have g1: "group_layout ?ld 1 = Some group_layout_news" by code_simp
  have g2: "group_layout ?ld 2 = None" by code_simp
  have s1: "shouldInclude item_news group_layout_news" by code_simp
  have s2: "\<not> shouldInclude item_sport group_layout_news" by code_simp
  have l: "layout_limit group_layout_news \<le> 0" by code_simp
  have o: "js_or (getp item_sport (articlegroup_flag 2)) (JStr ''No'') = JStr ''No''" by code_simp
  from group_flag_resolution [OF d i1, where ld = ?ld and data = item_news and w = "world_of []"
         and articleId = "JNum 8"] g1 s1 l
  have a: "getp (snd (resolve_flags ?e (world_of []) ?ld item_news (JNum 8))) (articlegroup_flag 1)
             = JStr ''Yes''" by simp
  from group_flag_resolution [OF d i1, where ld = ?ld and data = item_sport and w = "world_of []"
         and articleId = "JNum 9"] g1 s2
  have b: "getp (snd (resolve_flags ?e (world_of []) ?ld item_sport (JNum 9))) (articlegroup_flag 1)
             = JStr ''No''" by simp
  from group_flag_resolution [OF d i2, where ld = ?ld and data = item_sport and w = "world_of []"
         and articleId = "JNum 9"] g2 o
  have c: "getp (snd (resolve_flags ?e (world_of []) ?ld item_sport (JNum 9))) (articlegroup_flag 2)
             = JStr ''No''" by simp
  from g1 g2 s1 s2 a b c show ?thesis by simp
qed

text \<open>
  The claim as stated fails: with no group layout configured, an item that carries
  \<open>articlegroup1_flag = 'Yes'\<close> keeps \<open>Yes\<close>, and the row written to the mirror table
  has it.
\<close>

theorem group_flag_without_layout_counterexample:
  "group_layout empty_layout_data 1 = None
   \<and> getp (snd (resolve_flags (env_of (Doc []) 5) (world_of []) empty_layout_data
                 item_group_only (JNum 7))) (articlegroup_flag 1) = JStr ''Yes''
   \<and> column ''articlegroup1_flag''
        (mirror_rows (syncToArticlesGroups item_group_only (env_of (Doc []) 5) create (world_of [])))
       = [JStr ''Yes'']"
  by code_simp

section \<open>Capacity limits\<close>

lemma check_in_flags:
  assumes "fc \<in> set (flags_to_check ld data)"
  obtains (h) i where "i \<in> set flag_indices" "highlight_needs_check ld data i"
                      "fc = highlight_check ld i"
        | (g) i where "i \<in> set flag_indices" "group_needs_check ld data i"
                      "fc = group_check ld i"
  using assms by (auto simp: flags_to_check_eq)

lemma resolved_check:
  assumes "D1 e" and "fc \<in> set (flags_to_check ld data)"
  shows "layout_limit (fc_layout fc) > 0
       \<and> resolved_flag (resolve_flags e w ld data articleId) fc
           = yes_no (within_limit e w (flagName fc) (layout_limit (fc_layout fc)) articleId)"
  using assms(2)
proof (cases rule: check_in_flags)
  case (h i)
  have "layout_limit (fc_layout (highlight_check ld i)) > 0"
    using h(2) by (auto simp: highlight_needs_check_def highlight_check_def split: option.splits)
  with resolved_highlight [OF assms(1) h(1), of w ld data articleId] h show ?thesis
    by (simp add: resolved_flag_def highlight_check_def)
next
  case (g i)
  have "layout_limit (fc_layout (group_check ld i)) > 0"
    using g(2) by (auto simp: group_needs_check_def group_check_def split: option.splits)
  with resolved_articlegroup [OF assms(1) g(1), of w ld data articleId] g show ?thesis
    by (simp add: resolved_flag_def group_check_def)
qed

lemma yes_no_Yes: "yes_no b = JStr ''Yes'' \<longleftrightarrow> b"
  by (simp add: yes_no_def)

text \<open>
  C3 (as amended). For a candidate flag F whose layout declares a limit L > 0 (an entry
  of \<open>flagsToCheck\<close>): when the batch count succeeds, F resolves to \<open>Yes\<close> if and only
  if the number of mirror rows with F = \<open>Yes\<close> and another id is below L, and to \<open>No\<close>
  otherwise; when the batch count throws, the same holds of the single count; when
  that throws too, F resolves to \<open>Yes\<close>. The count is the same with and without the
  item's own rows, classification leaves the rows of all other articles as they are,
  and a candidate whose layout declares no positive limit resolves to \<open>Yes\<close>.
\<close>

theorem capacity_limit_resolution:
  assumes "D1 e" and "fc \<in> set (flags_to_check ld data)"
  shows "layout_limit (fc_layout fc) > 0
       \<and> (\<forall>rows. d1_rows e BatchCount w = Some rows \<longrightarrow>
            (resolved_flag (resolve_flags e w ld data articleId) fc = JStr ''Yes''
               \<longleftrightarrow> count_others rows (flagName fc) articleId < layout_limit (fc_layout fc))
          \<and> (resolved_flag (resolve_flags e w ld data articleId) fc = JStr ''No''
               \<longleftrightarrow> \<not> count_others rows (flagName fc) articleId < layout_limit (fc_layout fc)))
       \<and> (d1_rows e BatchCount w = None \<longrightarrow>
            (\<forall>rows. d1_rows e (SingleCount (flagName fc)) w = Some rows \<longrightarrow>
               (resolved_flag (resolve_flags e w ld data articleId) fc = JStr ''Yes''
                  \<longleftrightarrow> count_others rows (flagName fc) articleId < layout_limit (fc_layout fc)))
          \<and> (d1_rows e (SingleCount (flagName fc)) w = None \<longrightarrow>
               resolved_flag (resolve_flags e w ld data articleId) fc = JStr ''Yes''))
       \<and> (\<forall>rows. count_others rows (flagName fc) articleId
                   = count_others (other_rows articleId rows) (flagName fc) articleId)
       \<and> other_rows (getp data ''article_id'') (mirror_rows (syncToArticlesGroups data e op w))
           = other_rows (getp data ''article_id'') (mirror_rows w)
       \<and> (\<forall>i \<in> set flag_indices.
             originalFlagValue data (highlight_flag i) = JStr ''Yes'' \<longrightarrow>
             (case map_of (layoutConfigMap ld) (highlight_layout i) of
                None \<Rightarrow> True | Some l \<Rightarrow> layout_limit l \<le> 0) \<longrightarrow>
             getp (fst (resolve_flags e w ld data articleId)) (highlight_flag i) = JStr ''Yes'')
       \<and> (\<forall>i \<in> set flag_indices. \<forall>l.
             group_layout ld i = Some l \<longrightarrow> shouldInclude data l \<longrightarrow> layout_limit l \<le> 0 \<longrightarrow>
             getp (snd (resolve_flags e w ld data articleId)) (articlegroup_flag i) = JStr ''Yes'')"
proof -
  let ?r = "resolved_flag (resolve_flags e w ld data articleId) fc"
  let ?F = "flagName fc" and ?L = "layout_limit (fc_layout fc)"
  from resolved_check [OF assms, of w articleId]
  have lim: "?L > 0" and r: "?r = yes_no (within_limit e w ?F ?L articleId)" by simp_all
  have batch: "\<forall>rows. d1_rows e BatchCount w = Some rows \<longrightarrow>
            (?r = JStr ''Yes'' \<longleftrightarrow> count_others rows ?F articleId < ?L)
          \<and> (?r = JStr ''No'' \<longleftrightarrow> \<not> count_others rows ?F articleId < ?L)"
    by (simp add: r within_limit_def yes_no_def)
  have single: "d1_rows e BatchCount w = None \<longrightarrow>
            (\<forall>rows. d1_rows e (SingleCount ?F) w = Some rows \<longrightarrow>
               (?r = JStr ''Yes'' \<longleftrightarrow> count_others rows ?F articleId < ?L))
          \<and> (d1_rows e (SingleCount ?F) w = None \<longrightarrow> ?r = JStr ''Yes'')"
    by (simp add: r within_limit_def yes_no_def)
  have own: "\<forall>rows. count_others rows ?F articleId
                   = count_others (other_rows articleId rows) ?F articleId"
    using count_others_own by blast
  have hl: "\<forall>i \<in> set flag_indices.
             originalFlagValue data (highlight_flag i) = JStr ''Yes'' \<longrightarrow>
             (case map_of (layoutConfigMap ld) (highlight_layout i) of
                None \<Rightarrow> True | Some l \<Rightarrow> layout_limit l \<le> 0) \<longrightarrow>
             getp (fst (resolve_flags e w ld data articleId)) (highlight_flag i) = JStr ''Yes''"
  proof (intro ballI impI)
    fix i
    assume i: "i \<in> set flag_indices"
      and y: "originalFlagValue data (highlight_flag i) = JStr ''Yes''"
      and n: "case map_of (layoutConfigMap ld) (highlight_layout i) of
                None \<Rightarrow> True | Some l \<Rightarrow> layout_limit l \<le> 0"
    from n have "\<not> highlight_needs_check ld data i"
      by (auto simp: highlight_needs_check_def split: option.splits)
    with resolved_highlight [OF assms(1) i, of w ld data articleId] y
    show "getp (fst (resolve_flags e w ld data articleId)) (highlight_flag i) = JStr ''Yes''"
      by simp
  qed
  have gl: "\<forall>i \<in> set flag_indices. \<forall>l.
             group_layout ld i = Some l \<longrightarrow> shouldInclude data l \<longrightarrow> layout_limit l \<le> 0 \<longrightarrow>
             getp (snd (resolve_flags e w ld data articleId)) (articlegroup_flag i) = JStr ''Yes''"
  proof (intro ballI allI impI)
    fix i l
    assume i: "i \<in> set flag_indices" and l: "group_layout ld i = Some l"
      and s: "shouldInclude data l" and n: "layout_limit l \<le> 0"
    with resolved_articlegroup [OF assms(1) i, of w ld data articleId]
    show "getp (snd (resolve_flags e w ld data articleId)) (articlegroup_flag i) = JStr ''Yes''"
      by (simp add: group_needs_check_def group_unchecked_value_def)
  qed
  from lim batch single own sync_other_rows [of data e op w] hl gl show ?thesis
    by (intro conjI)
qed

theorem capacity_limit_resolution_witness:
  "count_others [mirror_row 1 ''A'' 10] ''highlight1_flag'' (JNum 2) = 1
   \<and> layout_limit highlight1_limit_one = 1
   \<and> resolved_flag (resolve_flags (env_of (Doc [highlight1_limit_one]) 5)
                      (world_of [mirror_row 1 ''A'' 10])
                      (build_layout_data [highlight1_limit_one]) item_h1 (JNum 2))
        \<lparr>flagName = ''highlight1_flag'', fc_layout = highlight1_limit_one, fc_type = highlight\<rparr>
       = JStr ''No''
   \<and> other_rows (JNum 2)
        (mirror_rows (syncToArticlesGroups item_h1 (env_of (Doc [highlight1_limit_one]) 5) create
                        (world_of [mirror_row 1 ''A'' 10])))
       = [mirror_row 1 ''A'' 10]"
proof -
  let ?e = "env_of (Doc [highlight1_limit_one]) 5"
  let ?w = "world_of [mirror_row 1 ''A'' 10]"
  let ?ld = "build_layout_data [highlight1_limit_one]"
  let ?fc = "\<lparr>flagName = ''highlight1_flag'', fc_layout = highlight1_limit_one,
              fc_type = highlight\<rparr>"
  have d: "D1 ?e" by (simp add: env_of_def)
  have m: "?fc \<in> set (flags_to_check ?ld item_h1)" by code_simp
  have b: "d1_rows ?e BatchCount ?w = Some [mirror_row 1 ''A'' 10]"
    by (simp add: d1_rows_def env_of_def world_of_def)
  have c: "count_others [mirror_row 1 ''A'' 10] ''highlight1_flag'' (JNum 2) = 1" by code_simp
  have l: "layout_limit highlight1_limit_one = 1" by code_simp
  have i: "getp item_h1 ''article_id'' = JNum 2" by code_simp
  have o: "other_rows (JNum 2) (mirror_rows ?w) = [mirror_row 1 ''A'' 10]" by code_simp
  from capacity_limit_resolution [OF d m, where w = ?w and articleId = "JNum 2" and op = create]
    b c l i o
  show ?thesis by simp
qed

text \<open>
  The claim as stated fails when the store cannot count: the limit is 1, one other
  article holds the flag, both count statements throw, and the new item still gets
  \<open>Yes\<close>.
\<close>

theorem capacity_limit_counterexample:
  "count_others [mirror_row 1 ''A'' 10] ''highlight1_flag'' (JNum 2) = 1
   \<and> layout_limit highlight1_limit_one = 1
   \<and> flagName (hd (flags_to_check (build_layout_data [highlight1_limit_one]) item_h1))
       = ''highlight1_flag''
   \<and> column ''highlight1_flag''
        (mirror_rows (syncToArticlesGroups item_h1
           ((env_of (Doc [highlight1_limit_one]) 5)\<lparr>d1_fails := count_queries_fail\<rparr>) create
           (world_of [mirror_row 1 ''A'' 10])))
       = [JStr ''Yes'', JStr ''Yes'']"
  by code_simp

section \<open>Items without membership\<close>

lemma getp_foldl_setp:
  "getp (foldl (\<lambda>r' (k, v). setp r' k v) r kvs) k
     = (case map_of (rev kvs) k of None \<Rightarrow> getp r k | Some v \<Rightarrow> v)"
proof (induction kvs arbitrary: r)
  case Nil
  then show ?case by simp
next
  case (Cons kv kvs)
  obtain k' v' where kv: "kv = (k', v')" by (cases kv)
  show ?case
    by (simp add: kv Cons.IH map_add_def getp_setp split: option.splits)
qed

lemma map_of_rev_distinct:
  assumes "distinct (map fst xs)"
  shows "map_of (rev xs) k = map_of xs k"
  using assms
proof (induction xs)
  case Nil
  then show ?case by simp
next
  case (Cons x xs)
  obtain a b where x: "x = (a, b)" by (cases x)
  from Cons.prems x have na: "a \<notin> fst ` set xs" and d: "distinct (map fst xs)" by auto
  from na have "map_of xs a = None" by (simp add: map_of_eq_None_iff)
  with Cons.IH [OF d] x show ?case
    by (auto simp: map_add_def split: option.splits)
qed

lemma getp_append:
  "getp (xs @ ys) k = (if k \<in> fst ` set xs then getp xs k else getp ys k)"
proof (cases "map_of xs k")
  case None
  then have "k \<notin> fst ` set xs" by (simp add: map_of_eq_None_iff)
  with None show ?thesis by (simp add: getp_def map_add_def)
next
  case (Some v)
  then have "k \<in> fst ` set xs" by (metis map_of_eq_None_iff option.distinct(1))
  with Some show ?thesis by (simp add: getp_def map_add_def)
qed

lemma has_any_yes_key:
  assumes "has_any_yes flags" and "distinct (map fst flags)"
  shows "\<exists>k \<in> fst ` set flags. getp flags k = JStr ''Yes''"
proof -
  from assms(1) obtain kv where "kv \<in> set flags" and "snd kv = JStr ''Yes''"
    unfolding has_any_yes_def list_ex_iff by blast
  then obtain k v where kv: "(k, v) \<in> set flags" and v: "v = JStr ''Yes''"
    by (metis prod.collapse)
  from map_of_is_SomeI [OF assms(2) kv] v have "getp flags k = JStr ''Yes''"
    by (simp add: getp_def)
  moreover from kv have "k \<in> fst ` set flags" by (metis fst_conv imageI)
  ultimately show ?thesis by blast
qed

lemma key_has_any_yes:
  assumes "getp flags k = JStr ''Yes''"
  shows "has_any_yes flags"
proof -
  from assms obtain v where "map_of flags k = Some v" "v = JStr ''Yes''"
    by (auto simp: getp_def split: option.splits)
  then have "(k, JStr ''Yes'') \<in> set flags" by (auto dest: map_of_SomeD)
  then show ?thesis unfolding has_any_yes_def list_ex_iff by (metis snd_conv)
qed

lemma head_columns_no_flags:
  "(\<forall>k \<in> set flag_columns. k \<notin> set insert_head_columns) \<and> ''last_update_date'' \<notin> set flag_columns"
  by code_simp

lemma flag_columns_split:
  "set flag_columns = highlight_flag ` set flag_indices \<union> articlegroup_flag ` set flag_indices"
  by (simp add: flag_columns_def)

lemma getp_map_pairs:
  assumes "j \<in> set is" and "inj_on f (set is)"
  shows "getp (map (\<lambda>i. (f i, g i)) is) (f j) = g j"
proof -
  have "map_of (map (\<lambda>i. (f i, g i)) is) (f j) = Some (g j)"
    using assms by (induction "is") (auto simp: inj_on_def)
  then show ?thesis by (simp add: getp_def)
qed

lemma highlight_inj_on: "inj_on highlight_flag (set flag_indices)"
  using flag_names_distinct by (simp only: distinct_append distinct_map)

lemma articlegroup_inj_on: "inj_on articlegroup_flag (set flag_indices)"
  using flag_names_distinct by (simp only: distinct_append distinct_map)

lemma insert_values_highlight:
  assumes "j \<in> set flag_indices"
  shows "getp (insert_values data i hf gf t) (highlight_flag j) = getp hf (highlight_flag j)"
proof -
  let ?k = "highlight_flag j"
  let ?A = "[(''article_id'', i),
      (''issue_date'', js_or (getp data ''issue_date'') JNull),
      (''starting_date'', js_or (getp data ''starting_date'') JNull),
      (''ending_date'', js_or (getp data ''ending_date'') JNull),
      (''sub_menu_id'', js_or (getp data ''sub_menu_id'') JNull),
      (''menu'', js_or (getp data ''menu'') (JStr '''')),
      (''heading'', js_or (getp data ''heading'') (JStr '''')),
      (''body'', js_or (getp data ''body'') (JStr '''')),
      (''picture_location'', js_or (getp data ''picture_location'') (JStr '''')),
      (''picture2_location'', js_or (getp data ''picture2_location'') (JStr '''')),
      (''by_line'', js_or (getp data ''by_line'') (JStr ''''))]"
  have "?k \<in> set flag_columns" using assms by (simp add: flag_columns_split)
  with head_columns_no_flags have "?k \<notin> set insert_head_columns" by blast
  moreover have "fst ` set ?A = set insert_head_columns"
    by (simp add: insert_head_columns_def)
  ultimately have nA: "?k \<notin> fst ` set ?A" by metis
  have inB: "?k \<in> fst ` set (map (\<lambda>i. (highlight_flag i, getp hf (highlight_flag i))) flag_indices)"
    using assms by (simp add: image_image)
  have "getp (insert_values data i hf gf t) ?k
      = getp (map (\<lambda>i. (highlight_flag i, getp hf (highlight_flag i))) flag_indices) ?k"
    unfolding insert_values_def
    by (simp only: getp_append [of ?A] nA if_False getp_append [of "map (\<lambda>i. (highlight_flag i, getp hf (highlight_flag i))) flag_indices"] inB if_True)
  also have "\<dots> = getp hf ?k"
    by (rule getp_map_pairs [OF assms highlight_inj_on])
  finally show ?thesis .
qed

lemma insert_values_articlegroup:
  assumes "j \<in> set flag_indices"
  shows "getp (insert_values data i hf gf t) (articlegroup_flag j) = getp gf (articlegroup_flag j)"
proof -
  let ?k = "articlegroup_flag j"
  let ?A = "[(''article_id'', i),
      (''issue_date'', js_or (getp data ''issue_date'') JNull),
      (''starting_date'', js_or (getp data ''starting_date'') JNull),
      (''ending_date'', js_or (getp data ''ending_date'') JNull),
      (''sub_menu_id'', js_or (getp data ''sub_menu_id'') JNull),
      (''menu'', js_or (getp data ''menu'') (JStr '''')),
      (''heading'', js_or (getp data ''heading'') (JStr '''')),
      (''body'', js_or (getp data ''body'') (JStr '''')),
      (''picture_location'', js_or (getp data ''picture_location'') (JStr '''')),
      (''picture2_location'', js_or (getp data ''picture2_location'') (JStr '''')),
      (''by_line'', js_or (getp data ''by_line'') (JStr ''''))]"
  let ?B = "map (\<lambda>i. (highlight_flag i, getp hf (highlight_flag i))) flag_indices"
  let ?C = "map (\<lambda>i. (articlegroup_flag i, getp gf (articlegroup_flag i))) flag_indices"
  have "?k \<in> set flag_columns" using assms by (simp add: flag_columns_split)
  with head_columns_no_flags have "?k \<notin> set insert_head_columns" by blast
  moreover have "fst ` set ?A = set insert_head_columns"
    by (simp add: insert_head_columns_def)
  ultimately have nA: "?k \<notin> fst ` set ?A" by metis
  have "fst ` set ?B = highlight_flag ` set flag_indices" by (simp add: image_image)
  moreover have "?k \<notin> highlight_flag ` set flag_indices"
    using highlight_not_articlegroup [OF _ assms] by (metis imageE)
  ultimately have nB: "?k \<notin> fst ` set ?B" by metis
  have inC: "?k \<in> fst ` set ?C" using assms by (simp add: image_image)
  have "getp (insert_values data i hf gf t) ?k = getp ?C ?k"
    unfolding insert_values_def
    by (simp only: getp_append [of ?A] nA if_False getp_append [of ?B] nB
          getp_append [of ?C] inC if_True)
  also have "\<dots> = getp gf ?k"
    by (rule getp_map_pairs [OF assms articlegroup_inj_on])
  finally show ?thesis .
qed

lemma row_has_yes_highlight:
  assumes "j \<in> set flag_indices" and "getp r (highlight_flag j) = JStr ''Yes''"
  shows "row_has_yes r"
proof -
  have "highlight_flag j \<in> set flag_columns" using assms(1) by (simp add: flag_columns_split)
  with assms(2) show ?thesis unfolding row_has_yes_def list_ex_iff by blast
qed

lemma row_has_yes_articlegroup:
  assumes "j \<in> set flag_indices" and "getp r (articlegroup_flag j) = JStr ''Yes''"
  shows "row_has_yes r"
proof -
  have "articlegroup_flag j \<in> set flag_columns" using assms(1) by (simp add: flag_columns_split)
  with assms(2) show ?thesis unfolding row_has_yes_def list_ex_iff by blast
qed

text \<open>What an \<open>UPDATE\<close> leaves in a column.\<close>

lemma getp_update_row:
  "getp (update_row hf gf t r) k
     = (case map_of (rev gf) k of
          Some v \<Rightarrow> v
        | None \<Rightarrow>
            (case map_of (rev hf) k of
               Some v \<Rightarrow> v
             | None \<Rightarrow> if k = ''last_update_date'' then JNum t else getp r k))"
  unfolding update_row_def getp_foldl_setp
  by (simp add: map_add_def split: option.splits)

lemma update_row_group_flag:
  assumes "distinct (map fst gf)" and "k \<in> fst ` set gf"
  shows "getp (update_row hf gf t r) k = getp gf k"
proof -
  from assms(2) obtain v where v: "map_of gf k = Some v"
    by (metis map_of_eq_None_iff not_None_eq)
  then have "map_of (rev gf) k = Some v" by (simp add: map_of_rev_distinct [OF assms(1)])
  then have "getp (update_row hf gf t r) k = v" by (simp add: getp_update_row)
  with v show ?thesis by (simp add: getp_def)
qed

lemma update_row_highlight_flag:
  assumes "distinct (map fst hf)" and "k \<in> fst ` set hf" and "k \<notin> fst ` set gf"
  shows "getp (update_row hf gf t r) k = getp hf k"
proof -
  from assms(2) obtain v where v: "map_of hf k = Some v"
    by (metis map_of_eq_None_iff not_None_eq)
  then have h: "map_of (rev hf) k = Some v" by (simp add: map_of_rev_distinct [OF assms(1)])
  from assms(3) have "map_of (rev gf) k = None" by (simp add: map_of_eq_None_iff)
  with h have "getp (update_row hf gf t r) k = v" by (simp add: getp_update_row)
  with v show ?thesis by (simp add: getp_def)
qed

text \<open>A row written with some flag \<open>Yes\<close> has a flag column that is \<open>Yes\<close>.\<close>

lemma written_rows_have_yes:
  assumes hk: "fst ` set hf \<subseteq> highlight_flag ` set flag_indices"
      and gk: "fst ` set gf \<subseteq> articlegroup_flag ` set flag_indices"
      and hd: "distinct (map fst hf)" and gd: "distinct (map fst gf)"
      and yes: "has_any_yes hf \<or> has_any_yes gf"
  shows "row_has_yes (insert_values data i hf gf t) \<and> row_has_yes (update_row hf gf t r)"
  using yes
proof
  assume "has_any_yes hf"
  from has_any_yes_key [OF this hd] obtain k
    where k: "k \<in> fst ` set hf" and y: "getp hf k = JStr ''Yes''" by blast
  from k hk obtain j where j: "j \<in> set flag_indices" and kj: "k = highlight_flag j" by blast
  have "k \<notin> fst ` set gf"
  proof
    assume "k \<in> fst ` set gf"
    with gk obtain j' where "j' \<in> set flag_indices" "k = articlegroup_flag j'" by blast
    with highlight_not_articlegroup [OF j, of j'] kj show False by simp
  qed
  from update_row_highlight_flag [OF hd k this] y
  have "getp (update_row hf gf t r) (highlight_flag j) = JStr ''Yes''" by (simp add: kj)
  moreover from insert_values_highlight [OF j] y
  have "getp (insert_values data i hf gf t) (highlight_flag j) = JStr ''Yes''" by (simp add: kj)
  ultimately show ?thesis using row_has_yes_highlight [OF j] by blast
next
  assume "has_any_yes gf"
  from has_any_yes_key [OF this gd] obtain k
    where k: "k \<in> fst ` set gf" and y: "getp gf k = JStr ''Yes''" by blast
  from k gk obtain j where j: "j \<in> set flag_indices" and kj: "k = articlegroup_flag j" by blast
  from update_row_group_flag [OF gd k] y
  have "getp (update_row hf gf t r) (articlegroup_flag j) = JStr ''Yes''" by (simp add: kj)
  moreover from insert_values_articlegroup [OF j] y
  have "getp (insert_values data i hf gf t) (articlegroup_flag j) = JStr ''Yes''" by (simp add: kj)
  ultimately show ?thesis using row_has_yes_articlegroup [OF j] by blast
qed

lemma d1_run_invariant:
  assumes "\<And>rows. list_all row_has_yes rows \<Longrightarrow> list_all row_has_yes (f rows)"
      and "mirror_invariant w"
  shows "mirror_invariant (snd (d1_run e s f w))"
  using assms
  by (auto simp: d1_run_def d1_rows_def mirror_invariant_def mirror_rows_def
           split: option.splits if_splits)

lemma sync_try_unfold:
  assumes "getCachedLayoutConfig_hooks e w = (ld, w1)"
      and "resolve_flags e (ensureTableExists e w1) ld data i = (hf, gf)"
  shows "sync_try data e op i w =
     (case op of
        create \<Rightarrow>
          if \<not> has_any_yes hf \<and> \<not> has_any_yes gf then (Inr (), ensureTableExists e w1)
          else d1_run e InsertRow (\<lambda>rows. rows @ [insert_values data i hf gf (now e)])
                 (ensureTableExists e w1)
      | update \<Rightarrow>
          if \<not> (has_any_yes hf \<or> has_any_yes gf)
          then d1_run e DeleteRow (delete_rows i) (ensureTableExists e w1)
          else
            (case d1_rows e SelectExisting (ensureTableExists e w1) of
               None \<Rightarrow> (Inl D1Error, ensureTableExists e w1)
             | Some rows \<Rightarrow>
                 if list_ex (\<lambda>r. sql_eq (getp r ''article_id'') i) rows
                 then d1_run e UpdateRow (update_rows i hf gf (now e)) (ensureTableExists e w1)
                 else d1_run e InsertRow (\<lambda>rows. rows @ [insert_values data i hf gf (now e)])
                        (ensureTableExists e w1)))"
  by (simp add: sync_try_def assms Let_def)

lemma sync_try_invariant:
  assumes "mirror_invariant w"
  shows "mirror_invariant (snd (sync_try data e op i w))"
proof -
  obtain ld w1 where l: "getCachedLayoutConfig_hooks e w = (ld, w1)"
    by (cases "getCachedLayoutConfig_hooks e w") blast
  let ?w2 = "ensureTableExists e w1"
  obtain hf gf where rf: "resolve_flags e ?w2 ld data i = (hf, gf)"
    by (cases "resolve_flags e ?w2 ld data i") blast
  from resolve_flags_keys [of e ?w2 ld data i] rf
  have hk: "fst ` set hf \<subseteq> highlight_flag ` set flag_indices"
   and gk: "fst ` set gf \<subseteq> articlegroup_flag ` set flag_indices"
   and hd: "distinct (map fst hf)" and gd: "distinct (map fst gf)" by simp_all
  have "mirror_rows ?w2 = mirror_rows w"
    using mirror_rows_loader [of e w] l by (simp add: mirror_rows_ensure)
  with assms have inv2: "mirror_invariant ?w2" by (simp add: mirror_invariant_def)
  have del: "mirror_invariant (snd (d1_run e DeleteRow (delete_rows i) ?w2))"
    by (rule d1_run_invariant [OF _ inv2]) (simp add: delete_rows_def list_all_iff)
  have ins: "has_any_yes hf \<or> has_any_yes gf \<Longrightarrow>
      mirror_invariant (snd (d1_run e InsertRow
        (\<lambda>rows. rows @ [insert_values data i hf gf (now e)]) ?w2))"
    by (rule d1_run_invariant [OF _ inv2])
       (simp add: written_rows_have_yes [OF hk gk hd gd])
  have upd: "has_any_yes hf \<or> has_any_yes gf \<Longrightarrow>
      mirror_invariant (snd (d1_run e UpdateRow (update_rows i hf gf (now e)) ?w2))"
    by (rule d1_run_invariant [OF _ inv2])
       (auto simp: update_rows_def list_all_iff written_rows_have_yes [OF hk gk hd gd])
  show ?thesis
    unfolding sync_try_unfold [OF l rf]
    using inv2 del ins upd
    by (auto split: operation.splits option.splits)
qed

lemma sync_invariant:
  "mirror_invariant w \<Longrightarrow> mirror_invariant (syncToArticlesGroups data e op w)"
  by (simp add: syncToArticlesGroups_def Let_def sync_try_invariant)

lemma delete_invariant:
  assumes "mirror_invariant w"
  shows "mirror_invariant (snd (deleteFromArticlesGroups i e w))"
proof -
  have "mirror_invariant (snd (d1_run e DeleteRow (delete_rows i) w))"
    by (rule d1_run_invariant [OF _ assms]) (simp add: delete_rows_def list_all_iff)
  with assms show ?thesis by (simp add: deleteFromArticlesGroups_def)
qed

lemma own_rows_delete: "own_rows i (delete_rows i rows) = []"
  by (simp add: own_rows_def delete_rows_def)

lemma sync_try_no_yes:
  assumes "\<not> has_any_yes (fst (sync_flags data e w))"
      and "\<not> has_any_yes (snd (sync_flags data e w))"
  shows "mirror_rows (snd (sync_try data e create (getp data ''article_id'') w)) = mirror_rows w"
    and "\<not> d1_fails e DeleteRow \<Longrightarrow>
         own_rows (getp data ''article_id'')
           (mirror_rows (snd (sync_try data e update (getp data ''article_id'') w))) = []"
proof -
  let ?i = "getp data ''article_id''"
  obtain ld w1 where l: "getCachedLayoutConfig_hooks e w = (ld, w1)"
    by (cases "getCachedLayoutConfig_hooks e w") blast
  let ?w2 = "ensureTableExists e w1"
  obtain hf gf where rf: "resolve_flags e ?w2 ld data ?i = (hf, gf)"
    by (cases "resolve_flags e ?w2 ld data ?i") blast
  from assms l rf have n: "\<not> has_any_yes hf" "\<not> has_any_yes gf"
    by (simp_all add: sync_flags_def Let_def)
  have m: "mirror_rows ?w2 = mirror_rows w"
    using mirror_rows_loader [of e w] l by (simp add: mirror_rows_ensure)
  show "mirror_rows (snd (sync_try data e create ?i w)) = mirror_rows w"
    unfolding sync_try_unfold [OF l rf] using n m by simp
  assume d: "\<not> d1_fails e DeleteRow"
  have "own_rows ?i (mirror_rows (snd (d1_run e DeleteRow (delete_rows ?i) ?w2))) = []"
    using d by (cases "articles_groups ?w2")
      (simp_all add: d1_run_def d1_rows_def mirror_rows_def own_rows_delete, simp add: own_rows_def)
  then show "own_rows ?i (mirror_rows (snd (sync_try data e update ?i w))) = []"
    unfolding sync_try_unfold [OF l rf] using n by simp
qed

text \<open>
  C4 (as amended). When every resolved highlight and group flag of an item is not
  \<open>Yes\<close>: an update whose \<open>DELETE\<close> statement does not throw leaves no mirror row
  with the item's id, and a create writes nothing (the rows of the store are exactly
  those from before the call, so no row of the item exists afterwards when none
  existed before). Every call of \<open>syncToArticlesGroups\<close> and of
  \<open>deleteFromArticlesGroups\<close> preserves the invariant that each mirror row has a flag
  column that is \<open>Yes\<close>.
\<close>

theorem no_membership_no_row:
  "(D1 e \<and> truthy (getp data ''article_id'')
      \<and> \<not> has_any_yes (fst (sync_flags data e w)) \<and> \<not> has_any_yes (snd (sync_flags data e w)) \<longrightarrow>
        (\<not> d1_fails e DeleteRow \<longrightarrow>
           own_rows (getp data ''article_id'')
             (mirror_rows (syncToArticlesGroups data e update w)) = [])
      \<and> mirror_rows (syncToArticlesGroups data e create w) = mirror_rows w)
   \<and> (mirror_invariant w \<longrightarrow>
        mirror_invariant (syncToArticlesGroups data e op w)
      \<and> mirror_invariant (snd (deleteFromArticlesGroups articleId e w)))"
proof (intro conjI impI)
  assume a: "D1 e \<and> truthy (getp data ''article_id'')
      \<and> \<not> has_any_yes (fst (sync_flags data e w)) \<and> \<not> has_any_yes (snd (sync_flags data e w))"
  then have n: "\<not> has_any_yes (fst (sync_flags data e w))"
     "\<not> has_any_yes (snd (sync_flags data e w))" by simp_all
  from a sync_try_no_yes(1) [OF n]
  show "mirror_rows (syncToArticlesGroups data e create w) = mirror_rows w"
    by (simp add: syncToArticlesGroups_def Let_def)
  assume "\<not> d1_fails e DeleteRow"
  with a sync_try_no_yes(2) [OF n]
  show "own_rows (getp data ''article_id'')
             (mirror_rows (syncToArticlesGroups data e update w)) = []"
    by (simp add: syncToArticlesGroups_def Let_def)
next
  assume "mirror_invariant w"
  then show "mirror_invariant (syncToArticlesGroups data e op w)" by (rule sync_invariant)
next
  assume "mirror_invariant w"
  then show "mirror_invariant (snd (deleteFromArticlesGroups articleId e w))"
    by (rule delete_invariant)
qed

theorem no_membership_no_row_witness:
  "own_rows (JNum 1) (mirror_rows (world_of two_rows)) = [mirror_row 1 ''A'' 10]
   \<and> own_rows (JNum 1)
        (mirror_rows (syncToArticlesGroups item_plain (env_of (Doc []) 5) update
                        (world_of two_rows))) = []
   \<and> mirror_rows (syncToArticlesGroups item_plain (env_of (Doc []) 5) create (world_of []))
       = []
   \<and> mirror_invariant (syncToArticlesGroups item_plain (env_of (Doc []) 5) update
                         (world_of two_rows))
   \<and> mirror_invariant (snd (deleteFromArticlesGroups (JNum 2) (env_of (Doc []) 5)
                              (world_of two_rows)))"
proof -
  let ?e = "env_of (Doc []) 5"
  have d: "D1 ?e" "\<not> d1_fails ?e DeleteRow" by (simp_all add: env_of_def)
  have i: "getp item_plain ''article_id'' = JNum 1" by code_simp
  have t: "truthy (JNum 1)" by code_simp
  have n1: "\<not> has_any_yes (fst (sync_flags item_plain ?e (world_of two_rows)))" by code_simp
  have n2: "\<not> has_any_yes (snd (sync_flags item_plain ?e (world_of two_rows)))" by code_simp
  have n3: "\<not> has_any_yes (fst (sync_flags item_plain ?e (world_of [])))" by code_simp
  have n4: "\<not> has_any_yes (snd (sync_flags item_plain ?e (world_of [])))" by code_simp
  have v: "mirror_invariant (world_of two_rows)" by code_simp
  have o: "own_rows (JNum 1) (mirror_rows (world_of two_rows)) = [mirror_row 1 ''A'' 10]"
    by code_simp
  have m: "mirror_rows (world_of []) = []" by code_simp
  from no_membership_no_row [where e = ?e and data = item_plain and w = "world_of two_rows"
         and op = update and articleId = "JNum 2"]
       no_membership_no_row [where e = ?e and data = item_plain and w = "world_of []"
         and op = create and articleId = "JNum 2"]
       d i t n1 n2 n3 n4 v o m
  show ?thesis by simp
qed

text \<open>
  The claim as stated fails for a create: every resolved flag of the item is \<open>No\<close>,
  a mirror row with the item's id is in the store, and it is still there after the
  call. It fails for an update as well when the \<open>DELETE\<close> statement throws.
\<close>

theorem no_membership_create_counterexample:
  "\<not> has_any_yes (fst (sync_flags item_plain (env_of (Doc []) 5)
                          (world_of [mirror_row 1 ''A'' 10])))
   \<and> \<not> has_any_yes (snd (sync_flags item_plain (env_of (Doc []) 5)
                            (world_of [mirror_row 1 ''A'' 10])))
   \<and> own_rows (JNum 1)
        (mirror_rows (syncToArticlesGroups item_plain (env_of (Doc []) 5) create
                        (world_of [mirror_row 1 ''A'' 10])))
       = [mirror_row 1 ''A'' 10]"
  by code_simp

section \<open>Classifying the same item twice\<close>

lemma loader_current:
  assumes "layout_cache_current e w"
  shows "fst (getCachedLayoutConfig_hooks e w) = registry e"
    and "layout_cache_current e (snd (getCachedLayoutConfig_hooks e w))"
  using assms
  by (auto simp: getCachedLayoutConfig_hooks_def layout_cache_current_def registry_def Let_def
           split: option.splits layout_source.splits if_splits)

lemma layout_cache_current_now:
  "layout_cache_current (e\<lparr>now := t\<rparr>) w = layout_cache_current e w"
proof -
  have "registry (e\<lparr>now := t\<rparr>) = registry e" by (simp add: registry_def)
  then show ?thesis by (simp only: layout_cache_current_def)
qed

lemma ensure_hk: "hk_layoutConfigCache (ensureTableExists e w) = hk_layoutConfigCache w"
  by (simp add: ensureTableExists_def split: option.splits)

lemma d1_run_hk: "hk_layoutConfigCache (snd (d1_run e s f w)) = hk_layoutConfigCache w"
  by (simp add: d1_run_def split: option.splits)

lemma sync_try_current:
  assumes "layout_cache_current e w"
  shows "layout_cache_current e (snd (sync_try data e op i w))"
proof -
  obtain ld w1 where l: "getCachedLayoutConfig_hooks e w = (ld, w1)"
    by (cases "getCachedLayoutConfig_hooks e w") blast
  let ?w2 = "ensureTableExists e w1"
  obtain hf gf where rf: "resolve_flags e ?w2 ld data i = (hf, gf)"
    by (cases "resolve_flags e ?w2 ld data i") blast
  from loader_current(2) [OF assms] l have "layout_cache_current e w1" by simp
  then have c: "layout_cache_current e ?w2" by (simp add: layout_cache_current_def ensure_hk)
  then have "\<And>s f. layout_cache_current e (snd (d1_run e s f ?w2))"
    by (simp add: layout_cache_current_def d1_run_hk)
  with c show ?thesis
    by (simp add: sync_try_def l rf Let_def split: operation.splits option.splits)
qed

lemma sync_current:
  "layout_cache_current e w \<Longrightarrow> layout_cache_current e (syncToArticlesGroups data e op w)"
  by (simp add: syncToArticlesGroups_def Let_def sync_try_current)

text \<open>An existing table stays.\<close>

lemma ensure_table: "articles_groups w = Some rows \<Longrightarrow> articles_groups (ensureTableExists e w) = Some rows"
  by (simp add: ensureTableExists_def)

lemma loader_table:
  "articles_groups (snd (getCachedLayoutConfig_hooks e w)) = articles_groups w"
  by (simp add: getCachedLayoutConfig_hooks_def Let_def split: option.splits layout_source.splits)

lemma d1_run_table:
  "articles_groups w \<noteq> None \<Longrightarrow> articles_groups (snd (d1_run e s f w)) \<noteq> None"
  by (simp add: d1_run_def split: option.splits)

lemma sync_try_table:
  assumes "articles_groups w \<noteq> None"
  shows "articles_groups (snd (sync_try data e op i w)) \<noteq> None"
proof -
  obtain ld w1 where l: "getCachedLayoutConfig_hooks e w = (ld, w1)"
    by (cases "getCachedLayoutConfig_hooks e w") blast
  let ?w2 = "ensureTableExists e w1"
  obtain hf gf where rf: "resolve_flags e ?w2 ld data i = (hf, gf)"
    by (cases "resolve_flags e ?w2 ld data i") blast
  from assms loader_table [of e w] l have "articles_groups w1 \<noteq> None" by simp
  then have c: "articles_groups ?w2 \<noteq> None" using ensure_table by fastforce
  then have "\<And>s f. articles_groups (snd (d1_run e s f ?w2)) \<noteq> None" by (rule d1_run_table)
  with c show ?thesis
    by (simp add: sync_try_def l rf Let_def split: operation.splits option.splits)
qed

lemma sync_table:
  "articles_groups w \<noteq> None \<Longrightarrow> articles_groups (syncToArticlesGroups data e op w) \<noteq> None"
  using sync_try_table [of w data e op "getp data ''article_id''"]
  by (simp only: syncToArticlesGroups_def Let_def split: if_splits) metis

text \<open>The resolved flags depend on the store through the rows of other articles only.\<close>

lemma count_others_cong:
  assumes "other_rows i rows' = other_rows i rows"
  shows "count_others rows' flag i = count_others rows flag i"
  using assms count_others_own [of rows' flag i] count_others_own [of rows flag i] by simp

lemma resolve_flags_cong:
  assumes "D1 e' = D1 e" and "d1_fails e' = d1_fails e"
      and "articles_groups w \<noteq> None" and "articles_groups w' \<noteq> None"
      and "other_rows i (mirror_rows w') = other_rows i (mirror_rows w)"
  shows "resolve_flags e' w' ld data i = resolve_flags e w ld data i"
proof -
  from assms(3,4) obtain rows rows' where r: "articles_groups w = Some rows"
    and r': "articles_groups w' = Some rows'" by blast
  with assms(5) have o: "other_rows i rows' = other_rows i rows" by (simp add: mirror_rows_def)
  note c = count_others_cong [OF o]
  have rows: "\<And>s. d1_rows e' s w' = (if d1_fails e s then None else Some rows')"
    "\<And>s. d1_rows e s w = (if d1_fails e s then None else Some rows)"
    by (simp_all add: d1_rows_def assms(2) r r')
  have single: "\<And>f l. checkLayoutLimit e' w' f l i = checkLayoutLimit e w f l i"
    by (simp add: checkLayoutLimit_def assms(1) rows c)
  have "\<And>fcs. checkMultipleLayoutLimits e' w' fcs i = checkMultipleLayoutLimits e w fcs i"
    by (simp add: checkMultipleLayoutLimits_def assms(1) rows c single)
  then show ?thesis by (simp add: resolve_flags_eq)
qed

lemma d1_run_rows:
  assumes "articles_groups w = Some rows"
  shows "mirror_rows (snd (d1_run e s f w)) = (if d1_fails e s then rows else f rows)"
  using assms by (simp add: d1_run_def d1_rows_def mirror_rows_def)

lemma sync_try_update_rows:
  assumes "articles_groups w = Some rows"
  shows "mirror_rows (snd (sync_try data e update (getp data ''article_id'') w))
       = update_outcome data e (getp data ''article_id'')
           (fst (sync_flags data e w)) (snd (sync_flags data e w)) rows"
proof -
  let ?i = "getp data ''article_id''"
  obtain ld w1 where l: "getCachedLayoutConfig_hooks e w = (ld, w1)"
    by (cases "getCachedLayoutConfig_hooks e w") blast
  let ?w2 = "ensureTableExists e w1"
  obtain hf gf where rf: "resolve_flags e ?w2 ld data ?i = (hf, gf)"
    by (cases "resolve_flags e ?w2 ld data ?i") blast
  have f: "sync_flags data e w = (hf, gf)" by (simp add: sync_flags_def l rf)
  from assms loader_table [of e w] l have "articles_groups w1 = Some rows" by simp
  then have t: "articles_groups ?w2 = Some rows" by (rule ensure_table)
  then have m: "mirror_rows ?w2 = rows" by (simp add: mirror_rows_def)
  note r = d1_run_rows [OF t]
  have s: "d1_rows e SelectExisting ?w2 = (if d1_fails e SelectExisting then None else Some rows)"
    by (simp add: d1_rows_def t)
  show ?thesis
    unfolding sync_try_unfold [OF l rf] f
    by (simp add: update_outcome_def has_own_row_def r s m)
qed

lemma flags_writtenI:
  assumes "\<And>k. k \<in> fst ` set hf \<Longrightarrow> getp r k = getp hf k"
      and "\<And>k. k \<in> fst ` set gf \<Longrightarrow> getp r k = getp gf k"
  shows "flags_written hf gf r"
  unfolding flags_written_def list_all_iff using assms by simp

lemma flags_writtenD:
  assumes "flags_written hf gf r"
  shows "k \<in> fst ` set hf \<Longrightarrow> getp r k = getp hf k"
    and "k \<in> fst ` set gf \<Longrightarrow> getp r k = getp gf k"
  using assms unfolding flags_written_def list_all_iff by auto

lemma written_update_row:
  assumes hd: "distinct (map fst hf)" and gd: "distinct (map fst gf)"
      and dj: "\<And>k. k \<in> fst ` set hf \<Longrightarrow> k \<notin> fst ` set gf"
  shows "flags_written hf gf (update_row hf gf t r)"
proof (rule flags_writtenI)
  fix k assume "k \<in> fst ` set gf"
  then show "getp (update_row hf gf t r) k = getp gf k"
    by (rule update_row_group_flag [OF gd])
next
  fix k assume k: "k \<in> fst ` set hf"
  from update_row_highlight_flag [OF hd k dj [OF k]]
  show "getp (update_row hf gf t r) k = getp hf k" .
qed

lemma written_insert_values:
  assumes hk: "fst ` set hf \<subseteq> highlight_flag ` set flag_indices"
      and gk: "fst ` set gf \<subseteq> articlegroup_flag ` set flag_indices"
  shows "flags_written hf gf (insert_values data i hf gf t)"
proof (rule flags_writtenI)
  fix k assume "k \<in> fst ` set hf"
  with hk have "k \<in> highlight_flag ` set flag_indices" by (rule subsetD)
  then obtain j where "j \<in> set flag_indices" "k = highlight_flag j" by (rule imageE)
  then show "getp (insert_values data i hf gf t) k = getp hf k"
    by (simp add: insert_values_highlight)
next
  fix k assume "k \<in> fst ` set gf"
  with gk have "k \<in> articlegroup_flag ` set flag_indices" by (rule subsetD)
  then obtain j where "j \<in> set flag_indices" "k = articlegroup_flag j" by (rule imageE)
  then show "getp (insert_values data i hf gf t) k = getp gf k"
    by (simp add: insert_values_articlegroup)
qed

lemma update_written_row:
  assumes hd: "distinct (map fst hf)" and gd: "distinct (map fst gf)"
      and w: "flags_written hf gf r"
  shows "same_but_timestamp (update_row hf gf t r) r"
  unfolding same_but_timestamp_def
proof (intro allI impI)
  fix k :: string
  assume k: "k \<noteq> ''last_update_date''"
  show "getp (update_row hf gf t r) k = getp r k"
  proof (cases "map_of (rev gf) k")
    case (Some v)
    then have m: "map_of gf k = Some v" by (simp add: map_of_rev_distinct [OF gd])
    then have "(k, v) \<in> set gf" by (rule map_of_SomeD)
    then have "k \<in> fst ` set gf" by (rule rev_image_eqI) simp
    from flags_writtenD(2) [OF w this] m have "getp r k = v" by (simp add: getp_def)
    with Some show ?thesis by (simp add: getp_update_row)
  next
    case None
    show ?thesis
    proof (cases "map_of (rev hf) k")
      case (Some v)
      then have m: "map_of hf k = Some v" by (simp add: map_of_rev_distinct [OF hd])
      then have "(k, v) \<in> set hf" by (rule map_of_SomeD)
      then have "k \<in> fst ` set hf" by (rule rev_image_eqI) simp
      from flags_writtenD(1) [OF w this] m have "getp r k = v" by (simp add: getp_def)
      with Some None show ?thesis by (simp add: getp_update_row)
    next
      case n: None
      with None k show ?thesis by (simp add: getp_update_row)
    qed
  qed
qed

lemma same_but_timestamp_refl: "same_but_timestamp r r"
  by (simp add: same_but_timestamp_def)

lemma update_rows_same:
  assumes hd: "distinct (map fst hf)" and gd: "distinct (map fst gf)"
      and w: "\<And>r. r \<in> set rows \<Longrightarrow> sql_eq (getp r ''article_id'') i \<Longrightarrow> flags_written hf gf r"
  shows "list_all2 same_but_timestamp (update_rows i hf gf t rows) rows"
proof -
  have "\<And>r. r \<in> set rows \<Longrightarrow>
      same_but_timestamp
        (if sql_eq (getp r ''article_id'') i then update_row hf gf t r else r) r"
  proof -
    fix r assume r: "r \<in> set rows"
    show "same_but_timestamp
        (if sql_eq (getp r ''article_id'') i then update_row hf gf t r else r) r"
    proof (cases "sql_eq (getp r ''article_id'') i")
      case True
      from update_written_row [OF hd gd w [OF r True]] True show ?thesis by simp
    next
      case False
      then show ?thesis by (simp add: same_but_timestamp_refl)
    qed
  qed
  then show ?thesis
    unfolding update_rows_def list_all2_map1 list_all2_same by (rule ballI)
qed

lemma has_own_row_update:
  assumes "fst ` set hf \<subseteq> highlight_flag ` set flag_indices"
      and "fst ` set gf \<subseteq> articlegroup_flag ` set flag_indices"
  shows "has_own_row i (update_rows i hf gf t rows) = has_own_row i rows"
proof (induction rows)
  case Nil
  show ?case by (simp add: has_own_row_def update_rows_def)
next
  case (Cons r rows)
  then have "list_ex (\<lambda>r. sql_eq (getp r ''article_id'') i) (update_rows i hf gf t rows)
    = list_ex (\<lambda>r. sql_eq (getp r ''article_id'') i) rows" by (simp only: has_own_row_def)
  moreover have "update_rows i hf gf t (r # rows)
     = (if sql_eq (getp r ''article_id'') i then update_row hf gf t r else r)
       # update_rows i hf gf t rows" by (simp add: update_rows_def)
  ultimately show ?case
    by (cases "sql_eq (getp r ''article_id'') i")
       (simp_all add: has_own_row_def update_row_keeps_id [OF assms])
qed

text \<open>Two updates in a row, with the same resolved flags.\<close>

lemma update_outcome_twice:
  assumes hk: "fst ` set hf \<subseteq> highlight_flag ` set flag_indices"
      and gk: "fst ` set gf \<subseteq> articlegroup_flag ` set flag_indices"
      and hd: "distinct (map fst hf)" and gd: "distinct (map fst gf)"
      and i: "truthy i"
      and f: "d1_fails e' = d1_fails e"
  shows "list_all2 same_but_timestamp
           (update_outcome data e' i hf gf (update_outcome data e i hf gf rows))
           (update_outcome data e i hf gf rows)"
proof -
  have dj: "\<And>k. k \<in> fst ` set hf \<Longrightarrow> k \<notin> fst ` set gf"
  proof
    fix k assume "k \<in> fst ` set hf" and "k \<in> fst ` set gf"
    with hk gk have "k \<in> highlight_flag ` set flag_indices"
      and "k \<in> articlegroup_flag ` set flag_indices" by (auto intro: subsetD)
    then obtain a b where "a \<in> set flag_indices" "b \<in> set flag_indices"
      "k = highlight_flag a" "k = articlegroup_flag b" by (elim imageE)
    with highlight_not_articlegroup [of a b] show False by simp
  qed
  note refl = list_all2_refl [of same_but_timestamp, OF same_but_timestamp_refl]
  let ?own = "\<lambda>r. sql_eq (getp r ''article_id'') i"
  show ?thesis
  proof (cases "has_any_yes hf \<or> has_any_yes gf")
    case False
    have "delete_rows i (delete_rows i rows) = delete_rows i rows"
      by (simp add: delete_rows_def)
    with False show ?thesis by (simp add: update_outcome_def f refl)
  next
    case yes: True
    show ?thesis
    proof (cases "d1_fails e SelectExisting")
      case True
      with yes show ?thesis by (simp add: update_outcome_def f refl)
    next
      case sel: False
      show ?thesis
      proof (cases "has_own_row i rows")
        case own: True
        show ?thesis
        proof (cases "d1_fails e UpdateRow")
          case True
          with yes sel own show ?thesis by (simp add: update_outcome_def f refl)
        next
          case False
          let ?rows1 = "update_rows i hf gf (now e) rows"
          have 1: "update_outcome data e i hf gf rows = ?rows1"
            using yes sel own False by (simp add: update_outcome_def)
          have o1: "has_own_row i ?rows1" using own by (simp add: has_own_row_update [OF hk gk])
          have 2: "update_outcome data e' i hf gf ?rows1 = update_rows i hf gf (now e') ?rows1"
            using yes sel o1 False by (simp add: update_outcome_def f)
          have "\<And>r. r \<in> set ?rows1 \<Longrightarrow> ?own r \<Longrightarrow> flags_written hf gf r"
          proof -
            fix r assume "r \<in> set ?rows1" and o: "?own r"
            then have "r \<in> (\<lambda>r. if ?own r then update_row hf gf (now e) r else r) ` set rows"
              by (simp only: update_rows_def set_map)
            then obtain r0 where r: "r = (if ?own r0 then update_row hf gf (now e) r0 else r0)"
              by (elim imageE)
            show "flags_written hf gf r"
            proof (cases "?own r0")
              case True
              with r show ?thesis by (simp add: written_update_row [OF hd gd dj])
            next
              case False
              with r o show ?thesis by simp
            qed
          qed
          from update_rows_same [OF hd gd this] show ?thesis by (simp only: 1 2)
        qed
      next
        case none: False
        show ?thesis
        proof (cases "d1_fails e InsertRow")
          case True
          with yes sel none show ?thesis by (simp add: update_outcome_def f refl)
        next
          case False
          let ?ins = "insert_values data i hf gf (now e)"
          let ?rows1 = "rows @ [?ins]"
          have 1: "update_outcome data e i hf gf rows = ?rows1"
            using yes sel none False by (simp add: update_outcome_def)
          have "?own ?ins" using i by (simp add: insert_values_id truthy_sql_eq)
          then have o1: "has_own_row i ?rows1" by (simp add: has_own_row_def)
          show ?thesis
          proof (cases "d1_fails e UpdateRow")
            case True
            with yes sel o1 show ?thesis by (simp only: 1) (simp add: update_outcome_def f refl)
          next
            case upd: False
            have 2: "update_outcome data e' i hf gf ?rows1 = update_rows i hf gf (now e') ?rows1"
              using yes sel o1 upd by (simp add: update_outcome_def f)
            have "\<And>r. r \<in> set ?rows1 \<Longrightarrow> ?own r \<Longrightarrow> flags_written hf gf r"
            proof -
              fix r assume m: "r \<in> set ?rows1" and o: "?own r"
              from none o have "r \<notin> set rows" by (auto simp: has_own_row_def list_ex_iff)
              with m have "r = ?ins" by simp
              then show "flags_written hf gf r" by (simp add: written_insert_values [OF hk gk])
            qed
            from update_rows_same [OF hd gd this] show ?thesis by (simp only: 1 2)
          qed
        qed
      qed
    qed
  qed
qed

lemma sync_flags_cong:
  assumes c: "layout_cache_current e w" and c1: "layout_cache_current e w1"
      and t: "articles_groups w \<noteq> None" and t1: "articles_groups w1 \<noteq> None"
      and o: "other_rows (getp data ''article_id'') (mirror_rows w1)
            = other_rows (getp data ''article_id'') (mirror_rows w)"
  shows "sync_flags data (e\<lparr>now := t'\<rparr>) w1 = sync_flags data e w"
proof -
  let ?e' = "e\<lparr>now := t'\<rparr>" and ?i = "getp data ''article_id''"
  obtain ld wa where l: "getCachedLayoutConfig_hooks e w = (ld, wa)"
    by (cases "getCachedLayoutConfig_hooks e w") blast
  obtain ld' wa' where l': "getCachedLayoutConfig_hooks ?e' w1 = (ld', wa')"
    by (cases "getCachedLayoutConfig_hooks ?e' w1") blast
  from loader_current(1) [OF c] l have ld: "ld = registry e" by simp
  from c1 have "layout_cache_current ?e' w1" by (simp only: layout_cache_current_now)
  from loader_current(1) [OF this] l' have "ld' = registry ?e'" by simp
  then have ld': "ld' = ld" by (simp add: ld registry_def)
  let ?wb = "ensureTableExists e wa" and ?wb' = "ensureTableExists ?e' wa'"
  from t loader_table [of e w] l have "articles_groups wa \<noteq> None" by simp
  then have tb: "articles_groups ?wb \<noteq> None" using ensure_table by fastforce
  from t1 loader_table [of ?e' w1] l' have "articles_groups wa' \<noteq> None" by simp
  then have tb': "articles_groups ?wb' \<noteq> None" using ensure_table by fastforce
  have m: "mirror_rows ?wb = mirror_rows w"
    using mirror_rows_loader [of e w] l by (simp add: mirror_rows_ensure)
  have m': "mirror_rows ?wb' = mirror_rows w1"
    using mirror_rows_loader [of ?e' w1] l' by (simp add: mirror_rows_ensure)
  have "resolve_flags ?e' ?wb' ld data ?i = resolve_flags e ?wb ld data ?i"
    by (rule resolve_flags_cong [OF _ _ tb tb']) (simp_all add: m m' o)
  then show ?thesis by (simp add: sync_flags_def l l' ld')
qed

text \<open>
  C8 (as amended). With the mirror table in place and the cached layout registry, if
  any, equal to the one in the store: a second call on the same item, at any later
  time, resolves the same flags as the first (for create and for update), and after
  two updates in a row every mirror row agrees with the row after the first update in
  every column except \<open>last_update_date\<close>.
\<close>

theorem classify_twice:
  assumes "articles_groups w \<noteq> None" and "layout_cache_current e w"
  shows "sync_flags data (e\<lparr>now := t'\<rparr>) (syncToArticlesGroups data e op w) = sync_flags data e w
       \<and> list_all2 same_but_timestamp
           (mirror_rows (syncToArticlesGroups data (e\<lparr>now := t'\<rparr>) update
                           (syncToArticlesGroups data e update w)))
           (mirror_rows (syncToArticlesGroups data e update w))"
proof
  let ?e' = "e\<lparr>now := t'\<rparr>" and ?i = "getp data ''article_id''"
  have flags: "\<And>op. sync_flags data ?e' (syncToArticlesGroups data e op w) = sync_flags data e w"
    by (rule sync_flags_cong [OF assms(2) sync_current [OF assms(2)] assms(1)
              sync_table [OF assms(1)] sync_other_rows])
  show "sync_flags data ?e' (syncToArticlesGroups data e op w) = sync_flags data e w"
    by (rule flags)
  let ?w1 = "syncToArticlesGroups data e update w"
  note refl = list_all2_refl [of same_but_timestamp, OF same_but_timestamp_refl]
  show "list_all2 same_but_timestamp
           (mirror_rows (syncToArticlesGroups data ?e' update ?w1)) (mirror_rows ?w1)"
  proof (cases "D1 e \<and> truthy ?i")
    case False
    then have "syncToArticlesGroups data ?e' update ?w1 = ?w1"
      by (auto simp: syncToArticlesGroups_def Let_def)
    then show ?thesis by (simp only: refl)
  next
    case True
    from assms(1) obtain rows where r: "articles_groups w = Some rows" by blast
    from sync_table [OF assms(1), of data e update]
    obtain rows1 where r1: "articles_groups ?w1 = Some rows1" by blast
    let ?hf = "fst (sync_flags data e w)" and ?gf = "snd (sync_flags data e w)"
    have 1: "mirror_rows ?w1 = update_outcome data e ?i ?hf ?gf rows"
      using True sync_try_update_rows [OF r, of data e]
      by (simp add: syncToArticlesGroups_def Let_def)
    from r1 have rows1: "rows1 = mirror_rows ?w1" by (simp add: mirror_rows_def)
    have 2: "mirror_rows (syncToArticlesGroups data ?e' update ?w1)
           = update_outcome data ?e' ?i ?hf ?gf rows1"
      using True sync_try_update_rows [OF r1, of data ?e'] flags [of update]
      by (simp add: syncToArticlesGroups_def Let_def)
    obtain ld wa where l: "getCachedLayoutConfig_hooks e w = (ld, wa)"
      by (cases "getCachedLayoutConfig_hooks e w") blast
    have f: "sync_flags data e w = resolve_flags e (ensureTableExists e wa) ld data ?i"
      by (simp add: sync_flags_def l)
    from resolve_flags_keys [of e "ensureTableExists e wa" ld data ?i]
    have hk: "fst ` set ?hf \<subseteq> highlight_flag ` set flag_indices"
     and gk: "fst ` set ?gf \<subseteq> articlegroup_flag ` set flag_indices"
     and hd: "distinct (map fst ?hf)" and gd: "distinct (map fst ?gf)"
      by (simp_all only: f)
    have "d1_fails ?e' = d1_fails e" by simp
    from update_outcome_twice [OF hk gk hd gd _ this, of ?i data rows] True
    show ?thesis by (simp only: 1 2 rows1)
  qed
qed

theorem classify_twice_witness:
  "sync_flags item_h1 ((env_of (Doc [highlight1_limit_one]) 5)\<lparr>now := 9\<rparr>)
       (syncToArticlesGroups item_h1 (env_of (Doc [highlight1_limit_one]) 5) update (world_of []))
     = sync_flags item_h1 (env_of (Doc [highlight1_limit_one]) 5) (world_of [])
   \<and> list_all2 same_but_timestamp
        (mirror_rows (syncToArticlesGroups item_h1
           ((env_of (Doc [highlight1_limit_one]) 5)\<lparr>now := 9\<rparr>) update
           (syncToArticlesGroups item_h1 (env_of (Doc [highlight1_limit_one]) 5) update
              (world_of []))))
        (mirror_rows (syncToArticlesGroups item_h1 (env_of (Doc [highlight1_limit_one]) 5)
           update (world_of [])))
   \<and> column ''highlight1_flag''
        (mirror_rows (syncToArticlesGroups item_h1 (env_of (Doc [highlight1_limit_one]) 5)
           update (world_of [])))
       = [JStr ''Yes'']"
proof -
  let ?e = "env_of (Doc [highlight1_limit_one]) 5"
  have t: "articles_groups (world_of []) \<noteq> None" by (simp add: world_of_def)
  have c: "layout_cache_current ?e (world_of [])"
    by (simp add: layout_cache_current_def world_of_def)
  have y: "column ''highlight1_flag''
        (mirror_rows (syncToArticlesGroups item_h1 ?e update (world_of []))) = [JStr ''Yes'']"
    by code_simp
  from classify_twice [OF t c, where data = item_h1 and t' = 9 and op = update] y
  show ?thesis by simp
qed

text \<open>
  The claim as stated fails at the time stamp: the same item is updated twice, at
  times 5 and 9, the first call writes a row with \<open>last_update_date\<close> 5 and the second
  call writes 9 into it.
\<close>

theorem classify_twice_counterexample:
  "column ''last_update_date''
     (mirror_rows (syncToArticlesGroups item_h1 (env_of (Doc [highlight1_limit_one]) 5) update
        (world_of [])))
     = [JNum 5]
   \<and> column ''last_update_date''
       (mirror_rows (syncToArticlesGroups item_h1
          ((env_of (Doc [highlight1_limit_one]) 5)\<lparr>now := 9\<rparr>) update
          (syncToArticlesGroups item_h1 (env_of (Doc [highlight1_limit_one]) 5) update
             (world_of []))))
     = [JNum 9]"
  by code_simp

section \<open>The limit of the loop after each pass\<close>

















section \<open>Replacing the placeholders of a block\<close>

lemma startsWith_head:
  assumes "c \<noteq> d"
  shows "\<not> startsWith (c # s) (d # p)"
  using assms by (simp add: startsWith_def)

lemma replace_all_plain:
  assumes "CHR ''{'' \<notin> set u"
  shows "replace_all (CHR ''{'' # pat) repl pre 0 (u @ s)
       = u @ replace_all (CHR ''{'' # pat) repl (pre @ u) 0 s"
  using assms
proof (induction u arbitrary: pre)
  case Nil
  show ?case by simp
next
  case (Cons c u)
  then have c: "c \<noteq> CHR ''{''" and u: "CHR ''{'' \<notin> set u" by auto
  from startsWith_head [OF c] have "\<not> startsWith (c # u @ s) (CHR ''{'' # pat)" .
  with Cons.IH [OF u, of "pre @ [c]"] show ?case by simp
qed

lemma replace_all_plain_only:
  assumes "CHR ''{'' \<notin> set u"
  shows "replace_all (CHR ''{'' # pat) repl pre 0 u = u"
  using replace_all_plain [OF assms, of pat repl pre "[]"] by simp

lemma replace_all_skip:
  "replace_all pat repl pre (length u) (u @ s) = replace_all pat repl (pre @ u) 0 s"
proof (induction u arbitrary: pre)
  case Nil
  show ?case by simp
next
  case (Cons c u)
  from Cons [of "pre @ [c]"] show ?case by simp
qed

lemma replace_all_match:
  assumes "pat \<noteq> []"
  shows "replace_all pat repl pre 0 (pat @ s)
       = expand_replacement repl pat pre s @ replace_all pat repl (pre @ pat) 0 s"
proof -
  from assms obtain c r where p: "pat = c # r" by (cases pat) auto
  have sw: "startsWith (c # r @ s) (c # r)" by (simp add: startsWith_def)
  have "replace_all (c # r) repl pre 0 (c # r @ s)
      = expand_replacement repl (c # r) pre (drop (length (c # r)) (c # r @ s))
        @ replace_all (c # r) repl (pre @ [c]) (length (c # r) - 1) (r @ s)"
    using sw by (simp only: replace_all.simps) simp
  also have "drop (length (c # r)) (c # r @ s) = s" by simp
  also have "replace_all (c # r) repl (pre @ [c]) (length (c # r) - 1) (r @ s)
           = replace_all (c # r) repl ((pre @ [c]) @ r) 0 s"
    using replace_all_skip [of "c # r" repl "pre @ [c]" r s] by simp
  finally show ?thesis by (simp add: p)
qed

lemma expand_replacement_plain:
  assumes "CHR ''$'' \<notin> set v"
  shows "expand_replacement v matched pre post = v"
  using assms by (induction v matched pre post rule: expand_replacement.induct) auto

text \<open>A placeholder of another key does not occur in a text with one placeholder.\<close>

lemma takeWhile_until:
  "c \<notin> set k \<Longrightarrow> takeWhile (\<lambda>x. x \<noteq> c) (k @ c # r) = k"
  by (induction k) auto

lemma key_prefix:
  assumes "take (length (k' @ ''}}'')) (k @ ''}}'' @ q) = k' @ ''}}''"
      and "CHR ''}'' \<notin> set k" and "CHR ''}'' \<notin> set k'"
  shows "k' = k"
proof -
  from assms(1) obtain z where z: "k @ ''}}'' @ q = (k' @ ''}}'') @ z"
    by (metis append_take_drop_id)
  have "takeWhile (\<lambda>c. c \<noteq> CHR ''}'') (k @ ''}}'' @ q) = k"
    using takeWhile_until [OF assms(2)] by simp
  moreover have "takeWhile (\<lambda>c. c \<noteq> CHR ''}'') ((k' @ ''}}'') @ z) = k'"
    using takeWhile_until [OF assms(3)] by simp
  ultimately show ?thesis using z by simp
qed

lemma replace_other_placeholder:
  assumes "k' \<noteq> k"
      and "CHR ''}'' \<notin> set k" and "CHR ''}'' \<notin> set k'"
      and "CHR ''{'' \<notin> set k" and "CHR ''{'' \<notin> set q"
  shows "replace_all (placeholder k') repl pre 0 (placeholder k @ q) = placeholder k @ q"
proof -
  let ?P = "CHR ''{'' # CHR ''{'' # k' @ ''}}''"
  let ?rest = "k @ ''}}'' @ q"
  have P: "placeholder k' = ?P" by (simp add: placeholder_def)
  have S: "placeholder k @ q = CHR ''{'' # CHR ''{'' # ?rest" by (simp add: placeholder_def)
  have 1: "\<not> startsWith (CHR ''{'' # CHR ''{'' # ?rest) ?P"
  proof
    assume "startsWith (CHR ''{'' # CHR ''{'' # ?rest) ?P"
    then have "take (length (k' @ ''}}'')) ?rest = k' @ ''}}''" by (simp add: startsWith_def)
    from key_prefix [OF this assms(2,3)] assms(1) show False by simp
  qed
  have r: "CHR ''{'' \<notin> set ?rest" using assms(4,5) by simp
  have 2: "\<not> startsWith (CHR ''{'' # ?rest) ?P"
  proof (cases ?rest)
    case Nil
    then show ?thesis by simp
  next
    case (Cons c t)
    with r have "c \<noteq> CHR ''{''" by (metis list.set_intros(1))
    then show ?thesis by (simp only: Cons) (simp add: startsWith_def)
  qed
  have 3: "replace_all ?P repl ((pre @ ''{'') @ ''{'') 0 ?rest = ?rest"
    by (rule replace_all_plain_only [OF r])
  have "replace_all ?P repl pre 0 (CHR ''{'' # CHR ''{'' # ?rest)
      = CHR ''{'' # CHR ''{'' # replace_all ?P repl ((pre @ ''{'') @ ''{'') 0 ?rest"
    using 1 2 by (simp only: replace_all.simps) simp
  with 3 show ?thesis by (simp only: P S)
qed

lemma placeholder_Cons: "placeholder k = CHR ''{'' # CHR ''{'' # k @ ''}}''"
  by (simp add: placeholder_def)

lemma replace_placeholder_eq:
  "replace_placeholder key val rendered = replace_all (placeholder key) (field_text val) [] 0 rendered"
  by (simp add: replace_placeholder_def placeholder_def field_text_def)

lemma replace_placeholder_plain:
  assumes "CHR ''{'' \<notin> set u"
  shows "replace_placeholder key val u = u"
  unfolding replace_placeholder_eq placeholder_Cons by (rule replace_all_plain_only [OF assms])

lemma replace_placeholder_other:
  assumes "k' \<noteq> k"
      and "CHR ''}'' \<notin> set k" and "CHR ''}'' \<notin> set k'"
      and "CHR ''{'' \<notin> set k" and "CHR ''{'' \<notin> set p" and "CHR ''{'' \<notin> set q"
  shows "replace_placeholder k' val (p @ placeholder k @ q) = p @ placeholder k @ q"
proof -
  have "replace_all (placeholder k') (field_text val) [] 0 (p @ placeholder k @ q)
      = p @ replace_all (placeholder k') (field_text val) ([] @ p) 0 (placeholder k @ q)"
    unfolding placeholder_Cons [of k'] by (rule replace_all_plain [OF assms(5)])
  also have "replace_all (placeholder k') (field_text val) ([] @ p) 0 (placeholder k @ q)
           = placeholder k @ q"
    by (rule replace_other_placeholder [OF assms(1,2,3,4,6)])
  finally show ?thesis by (simp only: replace_placeholder_eq)
qed

lemma replace_placeholder_same:
  assumes "CHR ''{'' \<notin> set p" and "CHR ''{'' \<notin> set q"
      and "CHR ''$'' \<notin> set (field_text val)"
  shows "replace_placeholder k val (p @ placeholder k @ q) = p @ field_text val @ q"
proof -
  have ne: "placeholder k \<noteq> []" by (simp add: placeholder_def)
  have "replace_all (placeholder k) (field_text val) [] 0 (p @ placeholder k @ q)
      = p @ replace_all (placeholder k) (field_text val) ([] @ p) 0 (placeholder k @ q)"
    using replace_all_plain [OF assms(1), of "CHR ''{'' # k @ ''}}''" "field_text val" "[]"
            "placeholder k @ q"]
    by (simp only: placeholder_Cons)
  also have "replace_all (placeholder k) (field_text val) ([] @ p) 0 (placeholder k @ q)
           = expand_replacement (field_text val) (placeholder k) ([] @ p) q
             @ replace_all (placeholder k) (field_text val) (([] @ p) @ placeholder k) 0 q"
    by (rule replace_all_match [OF ne])
  also have "expand_replacement (field_text val) (placeholder k) ([] @ p) q = field_text val"
    by (rule expand_replacement_plain [OF assms(3)])
  also have "replace_all (placeholder k) (field_text val) (([] @ p) @ placeholder k) 0 q = q"
    unfolding placeholder_Cons by (rule replace_all_plain_only [OF assms(2)])
  finally show ?thesis by (simp only: replace_placeholder_eq)
qed

lemma substitute_fields_Nil: "substitute_fields [] r = r"
  by (simp add: substitute_fields_def)

lemma substitute_fields_Cons:
  "substitute_fields ((key, val) # art) r = substitute_fields art (replace_placeholder key val r)"
  by (simp add: substitute_fields_def)

lemma substitute_fields_append:
  "substitute_fields (xs @ ys) r = substitute_fields ys (substitute_fields xs r)"
  by (simp add: substitute_fields_def)

lemma substitute_fields_plain:
  assumes "CHR ''{'' \<notin> set u"
  shows "substitute_fields art u = u"
proof (induction art)
  case Nil
  show ?case by (rule substitute_fields_Nil)
next
  case (Cons kv art)
  obtain key val where kv: "kv = (key, val)" by (cases kv)
  from Cons show ?case
    by (simp only: kv substitute_fields_Cons replace_placeholder_plain [OF assms])
qed

lemma substitute_fields_other:
  assumes "k \<notin> fst ` set art"
      and "\<And>k'. k' \<in> fst ` set art \<Longrightarrow> CHR ''}'' \<notin> set k'"
      and "CHR ''}'' \<notin> set k" and "CHR ''{'' \<notin> set k"
      and "CHR ''{'' \<notin> set p" and "CHR ''{'' \<notin> set q"
  shows "substitute_fields art (p @ placeholder k @ q) = p @ placeholder k @ q"
  using assms(1,2)
proof (induction art)
  case Nil
  show ?case by (rule substitute_fields_Nil)
next
  case (Cons kv art)
  obtain key val where kv: "kv = (key, val)" by (cases kv)
  from Cons.prems(1) have ne: "key \<noteq> k" and rest: "k \<notin> fst ` set art" by (auto simp: kv)
  have "key \<in> fst ` set (kv # art)" by (simp add: kv)
  then have kb: "CHR ''}'' \<notin> set key" by (rule Cons.prems(2))
  have "\<And>k'. k' \<in> fst ` set art \<Longrightarrow> CHR ''}'' \<notin> set k'"
    using Cons.prems(2) by simp
  from Cons.IH [OF rest this]
  show ?case
    by (simp only: kv substitute_fields_Cons
          replace_placeholder_other [OF ne assms(3) kb assms(4,5,6)])
qed

text \<open>One placeholder between plain text, for an item that has the field.\<close>

lemma substitute_one_field:
  assumes d: "distinct (map fst art)" and m: "(k, v) \<in> set art"
      and kb: "\<And>k'. k' \<in> fst ` set art \<Longrightarrow> CHR ''}'' \<notin> set k'"
      and k: "CHR ''{'' \<notin> set k"
      and p: "CHR ''{'' \<notin> set p" and q: "CHR ''{'' \<notin> set q"
      and v1: "CHR ''$'' \<notin> set (field_text v)" and v2: "CHR ''{'' \<notin> set (field_text v)"
  shows "substitute_fields art (p @ placeholder k @ q) = p @ field_text v @ q"
proof -
  from m obtain xs ys where a: "art = xs @ (k, v) # ys" by (meson split_list)
  from d a have nx: "k \<notin> fst ` set xs" and ny: "k \<notin> fst ` set ys" by auto
  have "k \<in> fst ` set art" using m by (rule rev_image_eqI) simp
  then have kc: "CHR ''}'' \<notin> set k" by (rule kb)
  have kx: "\<And>k'. k' \<in> fst ` set xs \<Longrightarrow> CHR ''}'' \<notin> set k'"
    using kb by (simp add: a image_Un)
  have 1: "substitute_fields xs (p @ placeholder k @ q) = p @ placeholder k @ q"
    by (rule substitute_fields_other [OF nx kx kc k p q])
  have 2: "replace_placeholder k v (p @ placeholder k @ q) = p @ field_text v @ q"
    by (rule replace_placeholder_same [OF p q v1])
  have "CHR ''{'' \<notin> set (p @ field_text v @ q)" using p q v2 by simp
  then have 3: "substitute_fields ys (p @ field_text v @ q) = p @ field_text v @ q"
    by (rule substitute_fields_plain)
  show ?thesis
    by (simp only: a substitute_fields_append substitute_fields_Cons 1 2 3)
qed

lemma lower_char_brace:
  assumes "lower_char c = CHR ''{''"
  shows "c = CHR ''{''"
proof (cases "map_of (zip upper_letters lower_letters) c")
  case None
  with assms show ?thesis by (simp add: lower_char_def)
next
  case (Some d)
  then have "(c, d) \<in> set (zip upper_letters lower_letters)" by (rule map_of_SomeD)
  then have "d \<in> set lower_letters" by (rule set_zip_rightD)
  moreover from Some assms have "d = CHR ''{''" by (simp add: lower_char_def)
  moreover have "CHR ''{'' \<notin> set lower_letters" by code_simp
  ultimately show ?thesis by simp
qed

lemma cond_header_first:
  assumes "c \<noteq> CHR ''{''"
  shows "cond_header_at kw (c # s) = None"
proof -
  have "toLowerCase (take (length kw + 2) (c # s)) \<noteq> ''{{'' @ toLowerCase kw"
  proof
    assume "toLowerCase (take (length kw + 2) (c # s)) = ''{{'' @ toLowerCase kw"
    then have "lower_char c = CHR ''{''" by (simp add: toLowerCase_def)
    with assms show False by (auto dest: lower_char_brace)
  qed
  then show ?thesis by (simp add: cond_header_at_def)
qed

lemma cond_header_second:
  assumes "c \<noteq> CHR ''{''"
  shows "cond_header_at kw (d # c # s) = None"
proof -
  have "toLowerCase (take (length kw + 2) (d # c # s)) \<noteq> ''{{'' @ toLowerCase kw"
  proof
    assume "toLowerCase (take (length kw + 2) (d # c # s)) = ''{{'' @ toLowerCase kw"
    then have "lower_char c = CHR ''{''" by (simp add: toLowerCase_def)
    with assms show False by (auto dest: lower_char_brace)
  qed
  then show ?thesis by (simp add: cond_header_at_def)
qed

lemma space_not_word: "is_space c \<Longrightarrow> \<not> is_word c \<and> c \<noteq> CHR ''}''"
proof -
  have "list_all (\<lambda>c. \<not> is_word c \<and> c \<noteq> CHR ''}'')
          [CHR '' '', CHR 0x09, CHR 0x0A, CHR 0x0B, CHR 0x0C, CHR 0x0D, CHR 0xA0]"
    by code_simp
  then show "is_space c \<Longrightarrow> \<not> is_word c \<and> c \<noteq> CHR ''}''"
    unfolding is_space_def list_all_iff by blast
qed

lemma word_no_brace:
  assumes "list_all is_word k"
  shows "CHR ''{'' \<notin> set k" and "CHR ''}'' \<notin> set k"
proof -
  have "\<not> is_word CHR ''{''" "\<not> is_word CHR ''}''" by code_simp+
  with assms show "CHR ''{'' \<notin> set k" "CHR ''}'' \<notin> set k"
    unfolding list_all_iff by blast+
qed

text \<open>A placeholder of a field name is not the header of a conditional.\<close>

lemma placeholder_no_header:
  assumes "k \<noteq> []" and "list_all is_word k"
  shows "cond_header_at ''If'' (placeholder k @ q) = None"
proof -
  let ?s = "placeholder k @ q"
  let ?r1 = "drop (length ''If'' + 2) ?s"
  have r1: "?r1 = drop 2 (k @ ''}}'' @ q)" by (simp add: placeholder_def numeral_2_eq_2)
  have len: "2 < length (k @ ''}}'')" using assms(1) by (cases k) simp_all
  then have "hd (drop 2 ((k @ ''}}'') @ q)) = ((k @ ''}}'') @ q) ! 2"
    by (intro hd_drop_conv_nth) simp
  also have "\<dots> = (k @ ''}}'') ! 2" using len by (simp only: nth_append if_True)
  finally have "hd ?r1 \<in> set (k @ ''}}'')" using len by (simp only: r1 append_assoc nth_mem)
  then have "is_word (hd ?r1) \<or> hd ?r1 = CHR ''}''"
    using assms(2) by (auto simp: list_all_iff)
  then have ns: "\<not> is_space (hd ?r1)" using space_not_word by blast
  have "2 < length (k @ ''}}'' @ q)" using len by simp
  then have ne: "?r1 \<noteq> []" unfolding r1 by (simp only: drop_eq_Nil not_le not_False_eq_True)
  from ne ns have "dropWhile is_space ?r1 = ?r1" by (cases ?r1) simp_all
  then have "length (dropWhile is_space ?r1) = length ?r1" by simp
  then show ?thesis by (simp add: cond_header_at_def Let_def)
qed

lemma if_match_no_header: "cond_header_at ''If'' s = None \<Longrightarrow> if_match_at s = None"
  by (simp add: if_match_at_def)

lemma replace_if_plain:
  assumes "CHR ''{'' \<notin> set u"
  shows "replace_if_blocks art 0 (u @ s) lim
       = (u @ fst (replace_if_blocks art 0 s lim), snd (replace_if_blocks art 0 s lim))"
  using assms
proof (induction u)
  case Nil
  show ?case by simp
next
  case (Cons c u)
  then have c: "c \<noteq> CHR ''{''" and u: "CHR ''{'' \<notin> set u" by auto
  have "if_match_at (c # u @ s) = None"
    by (rule if_match_no_header [OF cond_header_first [OF c]])
  with Cons.IH [OF u] show ?case by (simp add: split_beta)
qed

lemma replace_if_plain_only:
  assumes "CHR ''{'' \<notin> set u"
  shows "replace_if_blocks art 0 u lim = (u, lim)"
  using replace_if_plain [OF assms, of art "[]" lim] by simp

lemma replace_if_placeholder:
  assumes "k \<noteq> []" and "list_all is_word k" and "CHR ''{'' \<notin> set q"
  shows "replace_if_blocks art 0 (placeholder k @ q) lim = (placeholder k @ q, lim)"
proof -
  let ?rest = "k @ ''}}'' @ q"
  from assms(1) obtain c k' where k: "k = c # k'" by (cases k) auto
  have kb: "CHR ''{'' \<notin> set k" by (rule word_no_brace(1) [OF assms(2)])
  then have c: "c \<noteq> CHR ''{''" by (auto simp: k)
  have S: "placeholder k @ q = CHR ''{'' # CHR ''{'' # ?rest" by (simp add: placeholder_def)
  have 1: "if_match_at (CHR ''{'' # CHR ''{'' # ?rest) = None"
    using if_match_no_header [OF placeholder_no_header [OF assms(1,2), of q]] by (simp only: S)
  have "cond_header_at ''If'' (CHR ''{'' # c # k' @ ''}}'' @ q) = None"
    by (rule cond_header_second [OF c])
  then have 2: "if_match_at (CHR ''{'' # ?rest) = None"
    using if_match_no_header by (simp add: k)
  have "CHR ''{'' \<notin> set ?rest" using kb assms(3) by simp
  then have 3: "replace_if_blocks art 0 ?rest lim = (?rest, lim)" by (rule replace_if_plain_only)
  have "replace_if_blocks art 0 (CHR ''{'' # CHR ''{'' # ?rest) lim
          = (CHR ''{'' # CHR ''{'' # ?rest, lim)"
    using 1 2 3 by (simp only: replace_if_blocks.simps) simp
  then show ?thesis by (simp only: S)
qed

text \<open>Rendering an item with a block of plain text around one placeholder.\<close>

lemma render_item_one_field:
  assumes "k \<noteq> []" and "list_all is_word k"
      and "CHR ''{'' \<notin> set p" and "CHR ''{'' \<notin> set q"
  shows "render_item (p @ placeholder k @ q) art lim
       = (substitute_fields art (p @ placeholder k @ q), lim)"
proof -
  have "replace_if_blocks art 0 (p @ placeholder k @ q) lim = (p @ placeholder k @ q, lim)"
    using replace_if_plain [OF assms(3), of art "placeholder k @ q" lim]
      replace_if_placeholder [OF assms(1,2,4), of art lim] by simp
  then show ?thesis by (simp add: render_item_def substitute_fields_def)
qed

lemma render_item_field:
  assumes k: "k \<noteq> []" "list_all is_word k"
      and p: "CHR ''{'' \<notin> set p" and q: "CHR ''{'' \<notin> set q"
      and d: "distinct (map fst art)"
      and kb: "list_all (\<lambda>k'. CHR ''}'' \<notin> set k') (map fst art)"
      and m: "map_of art k = Some v"
      and v: "CHR ''$'' \<notin> set (field_text v)" "CHR ''{'' \<notin> set (field_text v)"
  shows "render_item (p @ placeholder k @ q) art lim = (p @ field_text v @ q, lim)"
proof -
  from m have mem: "(k, v) \<in> set art" by (rule map_of_SomeD)
  have kb': "\<And>k'. k' \<in> fst ` set art \<Longrightarrow> CHR ''}'' \<notin> set k'"
    using kb by (auto simp: list_all_iff)
  have "substitute_fields art (p @ placeholder k @ q) = p @ field_text v @ q"
    by (rule substitute_one_field [OF d mem kb' word_no_brace(1) [OF k(2)] p q v])
  with render_item_one_field [OF k p q, of art lim] show ?thesis by simp
qed

section \<open>Reading a conditional\<close>
















lemma split_at_first_here:
  assumes "P (c # s)"
  shows "split_at_first P (c # s) = Some ([], c # s)"
  using assms by simp


lemma op_valchar_no_brace:
  "is_op c \<Longrightarrow> c \<noteq> CHR ''{''" "is_valchar c \<Longrightarrow> c \<noteq> CHR ''{''"
proof -
  have "\<not> is_op CHR ''{''" "\<not> is_valchar CHR ''{''" by code_simp+
  then show "is_op c \<Longrightarrow> c \<noteq> CHR ''{''" "is_valchar c \<Longrightarrow> c \<noteq> CHR ''{''" by blast+
qed










lemma endif_here: "is_endif_token (''{{EndIf}}'' @ s)"
proof -
  have "toLowerCase ''{{EndIf}}'' = ''{{endif}}''" by code_simp
  moreover have "take 9 (''{{EndIf}}'' @ s) = ''{{EndIf}}''" by simp
  ultimately show ?thesis by (simp only: is_endif_token_def)
qed










section \<open>Limit overrides and the end of the loop\<close>




section \<open>Dollar signs in a field value\<close>

text \<open>
  C5. The loop replaces \<open>{{heading}}\<close> with \<open>rendered.replace(pattern, value)\<close>, and
  \<open>replace\<close> reads \<open>$$\<close> in its second argument as one dollar sign. For one active
  article whose heading is \<open>Save $$ today\<close> and a layout whose body is
  \<open>{{RepeatBegin}}{{heading}}{{RepeatEnd}}\<close>, the rendered copy of the block, and with it
  the function written to \<open>layout.js\<close>, reads \<open>Save $ today\<close>: the placeholder is not
  replaced by the value of the field.
\<close>

theorem dollar_heading_rendering:
  "getp dollar_row ''heading'' = JStr ''Save $$ today''
   \<and> field_text (getp dollar_row ''heading'') = ''Save $$ today''
   \<and> fst (render_template heading_layout [dollar_row] [0]) = ''Save $ today''
   \<and> map_of (r2_objects (snd (Article_layout_process (env_of (Doc [heading_layout]) 5)
                                 (world_of [dollar_row])))) ''layout.js''
       = Some (''function GetHighlight1(){document.write(`Save $ today`);}'' @ [CHR 0x0A, CHR 0x0A],
               ''application/javascript'')"
  by code_simp

end
